theory Spec2Isabelle
  imports Main "HOL-Library.AList"
begin

section \<open>The work-graph execution engine of orchestrator/work\_graph\_manager.js\<close>

text \<open>
  The engine is the asynchronous JavaScript function \<open>executeBuildPipeline\<close>. It is
  embedded as a state machine. The body of the \<open>async (nodeId) => ...\<close> arrow function that
  runs one node is cut at its \<open>await\<close>s: between two awaits JavaScript runs a segment to
  completion, so a segment is one atomic transition (\<open>task_step\<close>) that returns the next
  await point and the effects the segment performs, in program order. The environment
  (\<open>env\<close>) fixes how every external operation settles (the progress queue, the task queue,
  the file system, the Dev-Flow Manager); a schedule fixes which pending await settles next.
  Every external operation is taken to settle: a hanging collaborator is outside the model.
\<close>

subsection \<open>Data model\<close>

datatype status = Pending | Running | Completed | Failed

text \<open>A node of \<open>workGraph.nodes\<close>, and the copy \<open>{ ...node, status: "pending" }\<close> kept in
  the \<open>nodes\<close> map.\<close>

record node =
  node_id :: string
  task :: string
  description :: string
  dependsOn :: "string list"

record tracked = node +
  status :: status

record jobData =
  jobBuildId :: string
  workGraph :: "node list"

text \<open>A rejection reason of an external operation: \<open>error.response?.data?.detail\<close> and
  \<open>error.message\<close>.\<close>

record err =
  detail :: "string option"
  message :: string

definition errorMessage :: "err \<Rightarrow> string" where
  "errorMessage e = (case detail e of None \<Rightarrow> message e
                     | Some d \<Rightarrow> if d = [] then message e else d)"

text \<open>What \<open>executeBuildPipeline\<close> throws: the \<open>Error\<close> built in the catch block of a node,
  an error that propagates unchanged, or the count-mismatch \<open>Error\<close> after the loop.\<close>

datatype cause =
    TaskFailed string string string
  | Thrown err
  | Incomplete

fun cause_message :: "cause \<Rightarrow> string" where
  "cause_message (TaskFailed i t m) = ''Task '' @ i @ '' ('' @ t @ '') failed: '' @ m"
| "cause_message (Thrown e) = message e"
| "cause_message Incomplete = ''Build failed: Not all tasks in the work graph were completed.''"

datatype outcome =
    Succeeded string "string option"
  | FailedWith cause

text \<open>The \<open>step\<close> text of a progress event (the source formats it into a string), and its
  \<open>status\<close>.\<close>

datatype step =
    Initializing
  | StartingBatch nat
  | Starting string
  | CompletedStep string
  | FailedStep string
  | Deployed

datatype pstatus = PActive | PCompleted | PError

text \<open>The result of a generation job: \<open>result.fileName\<close>, \<open>result.code\<close>.\<close>

record generated =
  fileName :: string
  code :: string

text \<open>Everything the engine does, in the order it does it. \<open>Progress\<close> is the call of
  \<open>progressQueue.add\<close>, \<open>QueueAdd\<close> of \<open>taskQueue.add\<close>, \<open>Mkdir\<close> and \<open>WriteFile\<close> the two
  calls of \<open>saveCodeLocally\<close>, \<open>Upload\<close> the post of \<open>streamFileToVM\<close>, \<open>StartEnvironment\<close>
  the post of \<open>executeDevOpsTask\<close>. \<open>Unblock i\<close> stands for the loop over \<open>adj.get(i)\<close>,
  \<open>Settle\<close> for the promise of \<open>executeBuildPipeline\<close> settling.\<close>

datatype effect =
    SetStatus string status
  | Progress step pstatus string
  | QueueAdd string string string
  | Mkdir string string
  | WriteFile string string string
  | Upload string string string
  | StartEnvironment string
  | SetPreviewUrl string
  | CountCompleted
  | Unblock string
  | Enqueue string
  | Settle outcome

text \<open>How the external operations settle. \<open>publish w st\<close> is the outcome of the
  \<open>progressQueue.add\<close> of the event with step \<open>st\<close> issued during wave \<open>w\<close> (\<open>None\<close>: resolved);
  the others are keyed by the node they are called for.\<close>

record env =
  publish :: "nat \<Rightarrow> step \<Rightarrow> err option"
  queue_add :: "string \<Rightarrow> err option"
  job_result :: "string \<Rightarrow> err + generated"
  mkdir :: "string \<Rightarrow> err option"
  write_file :: "string \<Rightarrow> err option"
  upload :: "string \<Rightarrow> err option"
  start_environment :: "string \<Rightarrow> err + string option"

text \<open>The await a node's promise is suspended at, or how it settled.\<close>

datatype pc =
    AwaitActive
  | AwaitAdd
  | AwaitJob
  | AwaitMkdir generated
  | AwaitWrite generated
  | AwaitUpload generated
  | AwaitStartVm
  | AwaitCompleted
  | AwaitError string
  | Fulfilled
  | Rejected cause

record sys =
  buildId :: string
  nodes :: "(string \<times> tracked) list"
  inDegree :: "(string \<times> int) list"
  adj :: "(string \<times> string list) list"
  queue :: "string list"
  completedCount :: nat
  previewUrl :: "string option"
  promises :: "(string \<times> pc) list"
  wave :: nat
  trace :: "effect list"
  result :: "outcome option"

subsection \<open>Helpers\<close>

text \<open>\<open>new Map(entries)\<close>: a later entry with the same key replaces the value and keeps the
  position of the first.\<close>

definition Map_new :: "('k \<times> 'v) list \<Rightarrow> ('k \<times> 'v) list" where
  "Map_new es = foldl (\<lambda>m (k, v). AList.update k v m) [] es"

definition startsWith :: "string \<Rightarrow> string \<Rightarrow> bool" where
  "startsWith s p = (take (length p) s = p)"

text \<open>\<open>emitProgress\<close>: nothing is published for a falsy \<open>buildId\<close>. \<open>emitted\<close> is the call
  of \<open>progressQueue.add\<close>, \<open>acked\<close> what the \<open>await\<close> of \<open>emitProgress\<close> then yields.\<close>

definition emitted :: "string \<Rightarrow> step \<Rightarrow> pstatus \<Rightarrow> string \<Rightarrow> effect list" where
  "emitted b st ps d = (if b = [] then [] else [Progress st ps d])"

definition acked :: "env \<Rightarrow> string \<Rightarrow> nat \<Rightarrow> step \<Rightarrow> err option" where
  "acked ev b w st = (if b = [] then None else publish ev w st)"

definition type_error :: err where
  "type_error = \<lparr>detail = None, message = ''TypeError''\<rparr>"

subsection \<open>One node: the async arrow function, segment by segment\<close>

text \<open>The synchronous start of the arrow function, up to its first \<open>await\<close>.\<close>

definition begin_task :: "string \<Rightarrow> 'a node_scheme \<Rightarrow> effect list" where
  "begin_task b n =
     SetStatus (node_id n) Running # emitted b (Starting (node_id n)) PActive (''Task: '' @ task n)"

text \<open>The catch block, up to its \<open>await emitProgress\<close>.\<close>

definition catch_block :: "string \<Rightarrow> 'a node_scheme \<Rightarrow> err \<Rightarrow> pc \<times> effect list" where
  "catch_block b n e =
     (AwaitError (errorMessage e),
      SetStatus (node_id n) Failed # emitted b (FailedStep (node_id n)) PError (errorMessage e))"

text \<open>\<open>node.status = "completed"\<close> and the call of \<open>emitProgress\<close> after it.\<close>

definition mark_completed :: "string \<Rightarrow> 'a node_scheme \<Rightarrow> pc \<times> effect list" where
  "mark_completed b n =
     (AwaitCompleted,
      SetStatus (node_id n) Completed # emitted b (CompletedStep (node_id n)) PCompleted [])"

fun task_step :: "env \<Rightarrow> string \<Rightarrow> nat \<Rightarrow> 'a node_scheme \<Rightarrow> pc \<Rightarrow> pc \<times> effect list" where
  "task_step ev b w n AwaitActive =
     (case acked ev b w (Starting (node_id n)) of
        Some e \<Rightarrow> (Rejected (Thrown e), [])
      | None \<Rightarrow>
          if startsWith (task n) ''generate-''
          then (AwaitAdd, [QueueAdd (task n) (node_id n) (description n)])
          else if task n = ''start-vm''
          then (AwaitStartVm, [StartEnvironment (node_id n)])
          else mark_completed b n)"
| "task_step ev b w n AwaitAdd =
     (case queue_add ev (node_id n) of
        Some e \<Rightarrow> catch_block b n e
      | None \<Rightarrow> (AwaitJob, []))"
| "task_step ev b w n AwaitJob =
     (case job_result ev (node_id n) of
        Inl e \<Rightarrow> catch_block b n e
      | Inr g \<Rightarrow> (AwaitMkdir g, [Mkdir (node_id n) (fileName g)]))"
| "task_step ev b w n (AwaitMkdir g) =
     (case mkdir ev (node_id n) of
        Some e \<Rightarrow> catch_block b n e
      | None \<Rightarrow> (AwaitWrite g, [WriteFile (node_id n) (fileName g) (code g)]))"
| "task_step ev b w n (AwaitWrite g) =
     (case write_file ev (node_id n) of
        Some e \<Rightarrow> catch_block b n e
      | None \<Rightarrow> (AwaitUpload g, [Upload (node_id n) (fileName g) (code g)]))"
| "task_step ev b w n (AwaitUpload g) =
     (case upload ev (node_id n) of
        Some e \<Rightarrow> catch_block b n e
      | None \<Rightarrow> mark_completed b n)"
| "task_step ev b w n AwaitStartVm =
     (case start_environment ev (node_id n) of
        Inl e \<Rightarrow> catch_block b n e
      | Inr u \<Rightarrow>
          (fst (mark_completed b n),
           (case u of None \<Rightarrow> [] | Some p \<Rightarrow> if p = [] then [] else [SetPreviewUrl p])
           @ snd (mark_completed b n)))"
| "task_step ev b w n AwaitCompleted =
     (case acked ev b w (CompletedStep (node_id n)) of
        Some e \<Rightarrow> catch_block b n e
      | None \<Rightarrow> (Fulfilled, [CountCompleted, Unblock (node_id n)]))"
| "task_step ev b w n (AwaitError m) =
     (case acked ev b w (FailedStep (node_id n)) of
        Some e \<Rightarrow> (Rejected (Thrown e), [])
      | None \<Rightarrow> (Rejected (TaskFailed (node_id n) (task n) m), []))"
| "task_step ev b w n Fulfilled = (Fulfilled, [])"
| "task_step ev b w n (Rejected c) = (Rejected c, [])"

fun in_flight :: "pc \<Rightarrow> bool" where
  "in_flight Fulfilled = False"
| "in_flight (Rejected c) = False"
| "in_flight p = True"

subsection \<open>The shared state\<close>

text \<open>The loop \<open>for (const dependentId of adj.get(nodeId) || [])\<close>. Every id in an
  adjacency list is the id of a node, hence a key of \<open>inDegree\<close> (lemma \<open>adj_closed\<close> below
  for the index the pipeline builds); for a missing key JavaScript would store \<open>NaN\<close>, which
  never equals zero, so nothing is enqueued.\<close>

fun unblock :: "string list \<Rightarrow> sys \<Rightarrow> sys" where
  "unblock [] s = s"
| "unblock (d # ds) s =
     (case map_of (inDegree s) d of
        None \<Rightarrow> unblock ds s
      | Some v \<Rightarrow>
          unblock ds
            (if v - 1 = 0
             then s\<lparr>inDegree := AList.update d (v - 1) (inDegree s),
                    queue := queue s @ [d], trace := trace s @ [Enqueue d]\<rparr>
             else s\<lparr>inDegree := AList.update d (v - 1) (inDegree s)\<rparr>))"

text \<open>An effect acting on the state; every effect is appended to the trace.\<close>

fun perform :: "effect \<Rightarrow> sys \<Rightarrow> sys" where
  "perform (SetStatus i st) s =
     s\<lparr>nodes := AList.map_entry i (\<lambda>n. n\<lparr>status := st\<rparr>) (nodes s),
       trace := trace s @ [SetStatus i st]\<rparr>"
| "perform (SetPreviewUrl p) s = s\<lparr>previewUrl := Some p, trace := trace s @ [SetPreviewUrl p]\<rparr>"
| "perform CountCompleted s =
     s\<lparr>completedCount := completedCount s + 1, trace := trace s @ [CountCompleted]\<rparr>"
| "perform (Unblock i) s =
     unblock (case map_of (adj s) i of None \<Rightarrow> [] | Some ds \<Rightarrow> ds)
       (s\<lparr>trace := trace s @ [Unblock i]\<rparr>)"
| "perform (Enqueue i) s = s\<lparr>queue := queue s @ [i], trace := trace s @ [Enqueue i]\<rparr>"
| "perform (Settle r) s = s\<lparr>result := Some r, trace := trace s @ [Settle r]\<rparr>"
| "perform e s = s\<lparr>trace := trace s @ [e]\<rparr>"

definition perform_all :: "effect list \<Rightarrow> sys \<Rightarrow> sys" where
  "perform_all es s = foldl (\<lambda>t e. perform e t) s es"

subsection \<open>The controller\<close>

text \<open>The dependency index: the loop over \<open>nodes.values()\<close> and, inside it, over
  \<open>node.dependsOn\<close>, with the guard \<open>adj.has(depId)\<close>.\<close>

type_synonym index = "(string \<times> int) list \<times> (string \<times> string list) list"

fun add_deps :: "string \<Rightarrow> string list \<Rightarrow> index \<Rightarrow> index" where
  "add_deps i [] ix = ix"
| "add_deps i (d # ds) (deg, ad) =
     (case map_of ad d of
        None \<Rightarrow> add_deps i ds (deg, ad)
      | Some xs \<Rightarrow>
          add_deps i ds
            (AList.update i ((case map_of deg i of None \<Rightarrow> 0 | Some v \<Rightarrow> v) + 1) deg,
             AList.update d (xs @ [i]) ad))"

fun build_index :: "(string \<times> tracked) list \<Rightarrow> index \<Rightarrow> index" where
  "build_index [] ix = ix"
| "build_index ((i, n) # ns) ix = build_index ns (add_deps (node_id n) (dependsOn n) ix)"

definition pending :: "node \<Rightarrow> tracked" where
  "pending n = \<lparr>node_id = node_id n, task = task n, description = description n,
                dependsOn = dependsOn n, status = Pending\<rparr>"

text \<open>The first rejection among the promises: what \<open>Promise.all\<close> rejects with.\<close>

fun first_rejected :: "(string \<times> pc) list \<Rightarrow> cause option" where
  "first_rejected [] = None"
| "first_rejected (p # ps) = (case snd p of Rejected c \<Rightarrow> Some c | _ \<Rightarrow> first_rejected ps)"

text \<open>The synchronous start of one arrow function by \<open>batch.map\<close>; \<open>nodes.get\<close> of an
  unknown id is \<open>undefined\<close>, and the assignment to its \<open>status\<close> throws.\<close>

definition dispatch :: "string \<Rightarrow> sys \<Rightarrow> sys" where
  "dispatch i s =
     (case map_of (nodes s) i of
        None \<Rightarrow> s\<lparr>promises := promises s @ [(i, Rejected (Thrown type_error))]\<rparr>
      | Some n \<Rightarrow>
          perform_all (begin_task (buildId s) n) (s\<lparr>promises := promises s @ [(i, AwaitActive)]\<rparr>))"

text \<open>After the loop: the count check, the last progress event, the return.\<close>

definition finish :: "env \<Rightarrow> sys \<Rightarrow> sys" where
  "finish ev s =
     (if completedCount s \<noteq> length (nodes s) then perform (Settle (FailedWith Incomplete)) s
      else
        let s1 = perform_all (emitted (buildId s) Deployed PCompleted []) s in
        case acked ev (buildId s) (wave s) Deployed of
          Some e \<Rightarrow> perform (Settle (FailedWith (Thrown e))) s1
        | None \<Rightarrow> perform (Settle (Succeeded (buildId s) (previewUrl s))) s1)"

text \<open>One turn of \<open>while (queue.length > 0)\<close>, up to \<open>await Promise.all(promises)\<close>.\<close>

definition next_wave :: "env \<Rightarrow> sys \<Rightarrow> sys" where
  "next_wave ev s =
     (if queue s = [] then finish ev s
      else
        let batch = queue s;
            s1 = perform_all (emitted (buildId s) (StartingBatch (length batch)) PActive [])
                   (s\<lparr>queue := [], wave := wave s + 1\<rparr>)
        in case acked ev (buildId s) (wave s1) (StartingBatch (length batch)) of
             Some e \<Rightarrow> perform (Settle (FailedWith (Thrown e))) s1
           | None \<Rightarrow>
               (let s2 = foldl (\<lambda>t i. dispatch i t) (s1\<lparr>promises := []\<rparr>) batch
                in (case first_rejected (promises s2) of
                      Some c \<Rightarrow> perform (Settle (FailedWith c)) s2
                    | None \<Rightarrow> s2)))"

text \<open>What the suspended \<open>executeBuildPipeline\<close> does when a promise of the wave has
  settled: \<open>Promise.all\<close> rejects with the first rejection, and is fulfilled when every
  promise is.\<close>

definition controller :: "env \<Rightarrow> sys \<Rightarrow> sys" where
  "controller ev s =
     (if result s \<noteq> None then s
      else case first_rejected (promises s) of
             Some c \<Rightarrow> perform (Settle (FailedWith c)) s
           | None \<Rightarrow>
               (if list_all (\<lambda>p. snd p = Fulfilled) (promises s) then next_wave ev s else s))"

text \<open>The pending await of the \<open>k\<close>-th promise of the wave settles: the segment of that
  arrow function runs (\<open>advance\<close>), then \<open>executeBuildPipeline\<close> reacts to what it finds.\<close>

definition segment :: "env \<Rightarrow> nat \<Rightarrow> sys \<Rightarrow> pc \<times> effect list" where
  "segment ev k s =
     (case map_of (nodes s) (fst (promises s ! k)) of
        None \<Rightarrow> (Rejected (Thrown type_error), [])
      | Some n \<Rightarrow> task_step ev (buildId s) (wave s) n (snd (promises s ! k)))"

definition advance :: "env \<Rightarrow> nat \<Rightarrow> sys \<Rightarrow> sys" where
  "advance ev k s =
     perform_all (snd (segment ev k s))
       (s\<lparr>promises := (promises s)[k := (fst (promises s ! k), fst (segment ev k s))]\<rparr>)"

definition sys_step :: "env \<Rightarrow> nat \<Rightarrow> sys \<Rightarrow> sys" where
  "sys_step ev k s = controller ev (advance ev k s)"

text \<open>The start of \<open>executeBuildPipeline\<close>, up to the first \<open>Promise.all\<close>.\<close>

definition initial :: "string \<Rightarrow> sys" where
  "initial b = \<lparr>buildId = b, nodes = [], inDegree = [], adj = [], queue = [],
                completedCount = 0, previewUrl = None, promises = [], wave = 0,
                trace = [], result = None\<rparr>"

text \<open>The three maps and the first ready set.\<close>

definition entries :: "node list \<Rightarrow> (string \<times> tracked) list" where
  "entries g = Map_new (map (\<lambda>n. (node_id n, pending n)) g)"

definition index_of :: "node list \<Rightarrow> index" where
  "index_of g =
     build_index (entries g)
       (Map_new (map (\<lambda>n. (node_id n, 0)) g), Map_new (map (\<lambda>n. (node_id n, [])) g))"

definition ready :: "node list \<Rightarrow> sys \<Rightarrow> sys" where
  "ready g s =
     perform_all (map Enqueue (map fst (filter (\<lambda>kv. snd kv = 0) (fst (index_of g)))))
       (s\<lparr>nodes := entries g, inDegree := fst (index_of g), adj := snd (index_of g)\<rparr>)"

definition greeted :: "string \<Rightarrow> sys" where
  "greeted b = perform_all (emitted b Initializing PActive []) (initial b)"

definition launch :: "env \<Rightarrow> jobData \<Rightarrow> sys" where
  "launch ev j = next_wave ev (ready (workGraph j) (greeted (jobBuildId j)))"

definition start :: "env \<Rightarrow> jobData \<Rightarrow> sys" where
  "start ev j =
     (case acked ev (jobBuildId j) 0 Initializing of
        Some e \<Rightarrow> perform (Settle (FailedWith (Thrown e))) (greeted (jobBuildId j))
      | None \<Rightarrow> launch ev j)"

subsection \<open>Running the pipeline\<close>

text \<open>The schedule names, turn by turn, the node whose pending await settles next; a name
  with no pending await, or the end of the schedule, lets the first pending await of the
  wave settle. The run ends when no await is pending, which includes the promises left
  running after \<open>executeBuildPipeline\<close> has thrown.\<close>

fun first_in_flight :: "(string \<times> pc) list \<Rightarrow> nat option" where
  "first_in_flight [] = None"
| "first_in_flight (p # ps) =
     (if in_flight (snd p) then Some 0 else map_option Suc (first_in_flight ps))"

fun find_task :: "string \<Rightarrow> (string \<times> pc) list \<Rightarrow> nat option" where
  "find_task x [] = None"
| "find_task x (p # ps) =
     (if fst p = x \<and> in_flight (snd p) then Some 0 else map_option Suc (find_task x ps))"

definition pick :: "string list \<Rightarrow> (string \<times> pc) list \<Rightarrow> nat option" where
  "pick sched ps =
     (case sched of
        [] \<Rightarrow> first_in_flight ps
      | x # _ \<Rightarrow> (case find_task x ps of Some k \<Rightarrow> Some k | None \<Rightarrow> first_in_flight ps))"

fun rank :: "pc \<Rightarrow> nat" where
  "rank AwaitActive = 8"
| "rank AwaitAdd = 7"
| "rank AwaitJob = 6"
| "rank (AwaitMkdir g) = 5"
| "rank (AwaitWrite g) = 4"
| "rank (AwaitUpload g) = 3"
| "rank AwaitStartVm = 3"
| "rank AwaitCompleted = 2"
| "rank (AwaitError m) = 1"
| "rank Fulfilled = 0"
| "rank (Rejected c) = 0"

definition potential :: "sys \<Rightarrow> nat" where
  "potential s =
     sum_list (map (\<lambda>p. rank (snd p)) (promises s))
     + 9 * length (queue s)
     + 9 * length (filter (\<lambda>kv. 0 < snd kv) (inDegree s))"

subsection \<open>Termination of the run\<close>

lemma first_in_flight_Some: "first_in_flight ps = Some k \<Longrightarrow> k < length ps \<and> in_flight (snd (ps ! k))"
  by (induction ps arbitrary: k) (auto split: if_splits)

lemma find_task_Some: "find_task x ps = Some k \<Longrightarrow> k < length ps \<and> in_flight (snd (ps ! k))"
  by (induction ps arbitrary: k) (auto split: if_splits)

lemma pick_Some: "pick sched ps = Some k \<Longrightarrow> k < length ps \<and> in_flight (snd (ps ! k))"
  by (auto simp: pick_def first_in_flight_Some find_task_Some split: list.splits option.splits)

lemma task_step_rank: "in_flight p \<Longrightarrow> rank (fst (task_step ev b w n p)) < rank p"
  by (cases p) (auto simp: catch_block_def mark_completed_def split: option.splits sum.splits)

definition qphi :: "sys \<Rightarrow> nat" where
  "qphi s = length (queue s) + length (filter (\<lambda>kv. 0 < snd kv) (inDegree s))"

lemma filter_update_pos:
  "map_of al d = Some v \<Longrightarrow>
   length (filter (\<lambda>kv. 0 < snd kv) (AList.update d (v - 1) al)) + (if v = (1::int) then 1 else 0)
   = length (filter (\<lambda>kv. 0 < snd kv) al)"
  by (induction al) (auto split: if_splits)

lemma unblock_qphi: "qphi (unblock ds s) = qphi s"
proof (induction ds arbitrary: s)
  case Nil
  then show ?case by simp
next
  case (Cons d ds)
  show ?case
  proof (cases "map_of (inDegree s) d")
    case None
    then show ?thesis using Cons by simp
  next
    case (Some v)
    then show ?thesis using Cons filter_update_pos[of "inDegree s" d v]
      by (auto simp: qphi_def split: if_splits)
  qed
qed

lemma unblock_promises: "promises (unblock ds s) = promises s"
  by (induction ds arbitrary: s) (auto split: option.splits)

lemma unblock_result: "result (unblock ds s) = result s"
  by (induction ds arbitrary: s) (auto split: option.splits)


fun task_effect :: "effect \<Rightarrow> bool" where
  "task_effect (Enqueue i) = False"
| "task_effect (Settle r) = False"
| "task_effect e = True"

lemma task_step_effects: "e \<in> set (snd (task_step ev b w n p)) \<Longrightarrow> task_effect e"
  by (cases p) (auto simp: catch_block_def mark_completed_def emitted_def split: option.splits sum.splits if_splits)

lemma perform_task_effect:
  "task_effect e \<Longrightarrow> qphi (perform e s) = qphi s \<and> promises (perform e s) = promises s \<and> result (perform e s) = result s"
  by (cases e) (simp_all add: unblock_qphi unblock_promises unblock_result, simp_all add: qphi_def)

lemma perform_all_task_effects:
  "\<forall>e \<in> set es. task_effect e \<Longrightarrow>
   qphi (perform_all es s) = qphi s \<and> promises (perform_all es s) = promises s \<and> result (perform_all es s) = result s"
  unfolding perform_all_def
  by (induction es arbitrary: s) (simp_all add: perform_task_effect)

definition ranksum :: "(string \<times> pc) list \<Rightarrow> nat" where
  "ranksum ps = sum_list (map (\<lambda>p. rank (snd p)) ps)"

lemma potential_alt: "potential s = ranksum (promises s) + 9 * qphi s"
  by (simp add: potential_def ranksum_def qphi_def)

lemma ranksum_update:
  "k < length ps \<Longrightarrow> rank p < rank (snd (ps ! k)) \<Longrightarrow> ranksum (ps[k := (i, p)]) < ranksum ps"
  unfolding ranksum_def
  by (induction ps arbitrary: k) (auto simp: nth_Cons split: nat.splits)

lemma in_flight_rank: "in_flight p \<Longrightarrow> 0 < rank p"
  by (cases p) auto

lemma begin_task_effects: "e \<in> set (begin_task b n) \<Longrightarrow> task_effect e"
  by (auto simp: begin_task_def emitted_def split: if_splits)

lemma perform_all_begin_task:
  "qphi (perform_all (begin_task b n) s) = qphi s \<and> promises (perform_all (begin_task b n) s) = promises s"
  using perform_all_task_effects[of "begin_task b n" s] begin_task_effects by blast

lemma dispatch_potential:
  "qphi (dispatch i s) = qphi s \<and> ranksum (promises (dispatch i s)) \<le> ranksum (promises s) + 8"
proof (cases "map_of (nodes s) i")
  case None
  then show ?thesis by (simp add: dispatch_def ranksum_def qphi_def)
next
  case (Some n)
  then show ?thesis
    using perform_all_begin_task[of "buildId s" n "s\<lparr>promises := promises s @ [(i, AwaitActive)]\<rparr>"]
    by (simp add: dispatch_def ranksum_def qphi_def)
qed

lemma dispatch_all_potential:
  "qphi (foldl (\<lambda>t i. dispatch i t) s batch) = qphi s \<and>
   ranksum (promises (foldl (\<lambda>t i. dispatch i t) s batch)) \<le> ranksum (promises s) + 8 * length batch"
proof (induction batch arbitrary: s)
  case Nil
  then show ?case by simp
next
  case (Cons i batch)
  show ?case using Cons[of "dispatch i s"] dispatch_potential[of i s] by simp
qed

lemma emitted_effects: "e \<in> set (emitted b st ps d) \<Longrightarrow> task_effect e"
  by (auto simp: emitted_def split: if_splits)

lemma perform_Settle_potential: "potential (perform (Settle r) s) = potential s"
  by (simp add: potential_def)

lemma perform_all_emitted: 
  "qphi (perform_all (emitted b st ps d) s) = qphi s \<and> promises (perform_all (emitted b st ps d) s) = promises s"
  using perform_all_task_effects[of "emitted b st ps d" s] emitted_effects by blast

lemma finish_potential: "potential (finish ev s) = potential s"
  by (simp add: finish_def perform_Settle_potential Let_def del: perform.simps split: option.splits)
     (simp add: potential_alt perform_all_emitted)

lemma next_wave_potential: "potential (next_wave ev s) \<le> potential s"
proof (cases "queue s = []")
  case True
  then show ?thesis by (simp add: next_wave_def finish_potential)
next
  case False
  define s1 where "s1 = perform_all (emitted (buildId s) (StartingBatch (length (queue s))) PActive [])
                   (s\<lparr>queue := [], wave := wave s + 1\<rparr>)"
  define s2 where "s2 = foldl (\<lambda>t i. dispatch i t) (s1\<lparr>promises := []\<rparr>) (queue s)"
  have q1: "qphi s1 + length (queue s) = qphi s" "promises s1 = promises s"
    using perform_all_emitted[of "buildId s" _ _ _ "s\<lparr>queue := [], wave := wave s + 1\<rparr>"]
    by (simp_all add: s1_def qphi_def)
  have q2: "qphi s2 = qphi s1" "ranksum (promises s2) \<le> 8 * length (queue s)"
    using dispatch_all_potential[of "s1\<lparr>promises := []\<rparr>" "queue s"]
    by (simp_all add: s2_def qphi_def ranksum_def)
  have p1: "potential s1 \<le> potential s" using q1 by (simp add: potential_alt)
  have p2: "potential s2 \<le> potential s" using q1 q2 by (simp add: potential_alt)
  have "next_wave ev s =
     (case acked ev (buildId s) (wave s1) (StartingBatch (length (queue s))) of
        Some e \<Rightarrow> perform (Settle (FailedWith (Thrown e))) s1
      | None \<Rightarrow> (case first_rejected (promises s2) of
                   Some c \<Rightarrow> perform (Settle (FailedWith c)) s2
                 | None \<Rightarrow> s2))"
    unfolding next_wave_def Let_def s1_def s2_def using False by (simp only: if_False)
  then show ?thesis using p1 p2
    by (simp add: perform_Settle_potential del: perform.simps split: option.splits)
qed

lemma controller_potential: "potential (controller ev s) \<le> potential s"
  using next_wave_potential[of ev s]
  by (simp add: controller_def perform_Settle_potential del: perform.simps split: option.splits)

lemma segment_rank:
  "in_flight (snd (promises s ! k)) \<Longrightarrow> rank (fst (segment ev k s)) < rank (snd (promises s ! k))"
  by (auto simp: segment_def in_flight_rank task_step_rank split: option.splits)

lemma segment_effects: "e \<in> set (snd (segment ev k s)) \<Longrightarrow> task_effect e"
  by (auto simp: segment_def task_step_effects split: option.splits)

lemma advance_frame:
  "qphi (advance ev k s) = qphi s"
  "promises (advance ev k s) = (promises s)[k := (fst (promises s ! k), fst (segment ev k s))]"
  "result (advance ev k s) = result s"
  using perform_all_task_effects[of "snd (segment ev k s)"
          "s\<lparr>promises := (promises s)[k := (fst (promises s ! k), fst (segment ev k s))]\<rparr>"]
        segment_effects[of _ ev k s]
  by (auto simp: advance_def qphi_def)

lemma sys_step_potential:
  assumes "k < length (promises s)" and "in_flight (snd (promises s ! k))"
  shows "potential (sys_step ev k s) < potential s"
proof -
  have "potential (advance ev k s) < potential s"
    using ranksum_update[OF assms(1) segment_rank[OF assms(2)], of "fst (promises s ! k)" ev]
    by (simp add: potential_alt advance_frame)
  then show ?thesis
    using controller_potential[of ev "advance ev k s"] by (simp add: sys_step_def)
qed

function exec :: "env \<Rightarrow> string list \<Rightarrow> sys \<Rightarrow> sys" where
  "exec ev sched s =
     (case pick sched (promises s) of
        None \<Rightarrow> s
      | Some k \<Rightarrow> exec ev (tl sched) (sys_step ev k s))"
  by pat_completeness auto
termination
  by (relation "measure (\<lambda>(ev, sched, s). potential s)") (auto dest: pick_Some simp: sys_step_potential)

declare exec.simps [simp del]

definition executeBuildPipeline :: "env \<Rightarrow> string list \<Rightarrow> jobData \<Rightarrow> sys" where
  "executeBuildPipeline ev sched j = exec ev sched (start ev j)"

subsection \<open>Reachable states\<close>

inductive reach :: "env \<Rightarrow> jobData \<Rightarrow> sys \<Rightarrow> bool" for ev :: env and j :: jobData where
  reach_launch: "reach ev j (launch ev j)"
| reach_step: "reach ev j s \<Longrightarrow> k < length (promises s) \<Longrightarrow> in_flight (snd (promises s ! k))
               \<Longrightarrow> reach ev j (sys_step ev k s)"

lemma exec_reach: "reach ev j s \<Longrightarrow> reach ev j (exec ev sched s)"
proof (induction ev sched s rule: exec.induct)
  case (1 ev sched s)
  show ?case
  proof (cases "pick sched (promises s)")
    case None
    then show ?thesis using 1 by (simp add: exec.simps)
  next
    case (Some k)
    then show ?thesis using 1 pick_Some[OF Some] by (simp add: exec.simps reach_step)
  qed
qed

text \<open>A build whose first progress event is not acknowledged ends there; any other build
  is a run from \<open>launch\<close>.\<close>

definition aborted :: "string \<Rightarrow> err \<Rightarrow> sys" where
  "aborted b e = perform (Settle (FailedWith (Thrown e))) (greeted b)"

lemma aborted_fields:
  "promises (aborted b e) = []" "nodes (aborted b e) = []"
  "result (aborted b e) = Some (FailedWith (Thrown e))"
  "trace (aborted b e) = emitted b Initializing PActive [] @ [Settle (FailedWith (Thrown e))]"
  "completedCount (aborted b e) = 0"
  by (simp_all add: aborted_def greeted_def initial_def emitted_def perform_all_def)

lemma exec_idle: "promises s = [] \<Longrightarrow> exec ev sched s = s"
  by (simp add: exec.simps pick_def split: list.splits)

lemma pipeline_cases:
  "(\<exists>e. acked ev (jobBuildId j) 0 Initializing = Some e \<and>
        executeBuildPipeline ev sched j = aborted (jobBuildId j) e)
   \<or> (acked ev (jobBuildId j) 0 Initializing = None \<and>
       executeBuildPipeline ev sched j = exec ev sched (launch ev j) \<and>
       reach ev j (executeBuildPipeline ev sched j))"
proof (cases "acked ev (jobBuildId j) 0 Initializing")
  case None
  then show ?thesis
    by (simp add: executeBuildPipeline_def start_def exec_reach reach_launch)
next
  case (Some e)
  then show ?thesis
    using exec_idle[of "aborted (jobBuildId j) e" ev sched]
    by (simp add: executeBuildPipeline_def start_def aborted_fields aborted_def[symmetric]
          del: perform.simps)
qed

lemma first_in_flight_None: "first_in_flight ps = None \<Longrightarrow> \<forall>p \<in> set ps. \<not> in_flight (snd p)"
  by (induction ps) (auto split: if_splits)

lemma pick_None: "pick sched ps = None \<Longrightarrow> \<forall>p \<in> set ps. \<not> in_flight (snd p)"
  by (auto simp: pick_def first_in_flight_None split: list.splits option.splits)

lemma exec_settled: "\<forall>p \<in> set (promises (exec ev sched s)). \<not> in_flight (snd p)"
proof (induction ev sched s rule: exec.induct)
  case (1 ev sched s)
  show ?case
  proof (cases "pick sched (promises s)")
    case None
    then show ?thesis using pick_None[OF None] by (simp add: exec.simps)
  next
    case (Some k)
    then show ?thesis using 1 by (simp add: exec.simps)
  qed
qed

lemma first_rejected_update:
  "first_rejected ps = None \<Longrightarrow> k < length ps \<Longrightarrow> first_rejected (ps[k := (i, Rejected c)]) = Some c"
  by (induction ps arbitrary: k) (auto split: pc.splits nat.splits simp: nth_Cons)

lemma first_rejected_Some_iff: "first_rejected ps = None \<longleftrightarrow> (\<forall>p \<in> set ps. \<forall>c. snd p \<noteq> Rejected c)"
  by (induction ps) (auto split: pc.splits)


subsection \<open>Facts about the maps\<close>

lemma Map_new_Nil [simp]: "Map_new [] = []"
  by (simp add: Map_new_def)

lemma Map_new_snoc: "Map_new (es @ [(k, v)]) = AList.update k v (Map_new es)"
  by (simp add: Map_new_def)

lemma set_update_subset: "set (AList.update k v al) \<subseteq> insert (k, v) (set al)"
  by (induction al) auto

lemma Map_new_distinct_keys: "distinct (map fst (Map_new es))"
proof (induction es rule: rev_induct)
  case Nil
  then show ?case by simp
next
  case (snoc x es)
  then show ?case by (cases x) (simp add: Map_new_snoc distinct_update)
qed

lemma Map_new_keys_set: "fst ` set (Map_new es) = fst ` set es"
proof (induction es rule: rev_induct)
  case Nil
  then show ?case by simp
next
  case (snoc x es)
  then show ?case by (cases x) (simp add: Map_new_snoc dom_update image_Un)
qed

lemma Map_new_keys_cong:
  "map fst es = map fst es' \<Longrightarrow> map fst (Map_new es) = map fst (Map_new es')"
proof (induction es arbitrary: es' rule: rev_induct)
  case Nil
  then show ?case by simp
next
  case (snoc x es)
  then obtain y ys where e: "es' = ys @ [y]" "map fst es = map fst ys" "fst x = fst y"
    by (cases es' rule: rev_cases) auto
  have "fst ` set (Map_new es) = fst ` set (Map_new ys)"
    using e(2) by (metis Map_new_keys_set set_map)
  then show ?case using snoc.IH[OF e(2)] e
    by (cases x; cases y) (auto simp: Map_new_snoc update_keys)
qed

lemma Map_new_values:
  "(\<And>k v. (k, v) \<in> set es \<Longrightarrow> P k v) \<Longrightarrow> (k, v) \<in> set (Map_new es) \<Longrightarrow> P k v"
proof (induction es arbitrary: k v rule: rev_induct)
  case Nil
  then show ?case by simp
next
  case (snoc x es)
  obtain k' v' where x: "x = (k', v')" by (cases x)
  show ?case using snoc x set_update_subset[of k' v' "Map_new es"]
    by (auto simp: Map_new_snoc)
qed

lemma update_fresh: "k \<notin> fst ` set al \<Longrightarrow> AList.update k v al = al @ [(k, v)]"
  by (induction al) auto

lemma Map_new_id: "distinct (map fst es) \<Longrightarrow> Map_new es = es"
proof (induction es rule: rev_induct)
  case Nil
  then show ?case by simp
next
  case (snoc x es)
  obtain k v where x: "x = (k, v)" by (cases x)
  have "k \<notin> fst ` set es" using snoc.prems x by auto
  then show ?case using snoc x by (simp add: Map_new_snoc update_fresh)
qed

lemma map_of_eq_Some_iff_key: "map_of al k = Some v \<Longrightarrow> k \<in> fst ` set al"
  by (metis map_of_eq_None_iff option.distinct(1))

subsection \<open>Facts about the dependency index\<close>

definition keys :: "node list \<Rightarrow> string list" where
  "keys g = map fst (entries g)"

lemma keys_distinct: "distinct (keys g)"
  by (simp add: keys_def entries_def Map_new_distinct_keys)

lemma keys_set: "set (keys g) = node_id ` set g"
  using Map_new_keys_set[of "map (\<lambda>n. (node_id n, pending n)) g"]
  by (simp add: keys_def entries_def image_image)

lemma entries_node_id: "(k, n) \<in> set (entries g) \<Longrightarrow> node_id n = k \<and> status n = Pending"
  unfolding entries_def
  by (erule Map_new_values[rotated]) (auto simp: pending_def)

lemma entries_from_graph:
  "(k, n) \<in> set (entries g) \<Longrightarrow> \<exists>m \<in> set g. n = pending m"
  unfolding entries_def
  by (erule Map_new_values[rotated]) auto

lemma add_deps_keys:
  "i \<in> fst ` set (fst ix) \<Longrightarrow>
   map fst (fst (add_deps i ds ix)) = map fst (fst ix) \<and>
   map fst (snd (add_deps i ds ix)) = map fst (snd ix)"
proof (induction i ds ix rule: add_deps.induct)
  case (1 i ix)
  then show ?case by simp
next
  case (2 i d ds deg ad)
  show ?case
  proof (cases "map_of ad d")
    case None
    then show ?thesis using 2 by simp
  next
    case (Some xs)
    then have "d \<in> fst ` set ad" by (simp add: map_of_eq_Some_iff_key)
    then show ?thesis using 2 Some by (simp add: update_keys dom_update)
  qed
qed

lemma build_index_keys:
  "\<forall>(k, n) \<in> set ns. node_id n \<in> fst ` set (fst ix) \<Longrightarrow>
   map fst (fst (build_index ns ix)) = map fst (fst ix) \<and>
   map fst (snd (build_index ns ix)) = map fst (snd ix)"
proof (induction ns ix rule: build_index.induct)
  case (1 ix)
  then show ?case by simp
next
  case (2 i n ns ix)
  have k: "map fst (fst (add_deps (node_id n) (dependsOn n) ix)) = map fst (fst ix)"
    "map fst (snd (add_deps (node_id n) (dependsOn n) ix)) = map fst (snd ix)"
    using add_deps_keys[of "node_id n" ix "dependsOn n"] 2(2) by auto
  have "fst ` set (fst (add_deps (node_id n) (dependsOn n) ix)) = fst ` set (fst ix)"
    using k(1) by (metis set_map)
  then show ?case using 2 k by simp
qed

lemma index_keys:
  "map fst (fst (index_of g)) = keys g" "map fst (snd (index_of g)) = keys g"
proof -
  let ?ix = "(Map_new (map (\<lambda>n. (node_id n, 0::int)) g), Map_new (map (\<lambda>n. (node_id n, []::string list)) g))"
  have a: "map fst (fst ?ix) = keys g" "map fst (snd ?ix) = keys g"
    unfolding keys_def entries_def fst_conv snd_conv
    by (rule Map_new_keys_cong, simp add: comp_def)+
  have "\<forall>(k, n) \<in> set (entries g). node_id n \<in> fst ` set (fst ?ix)"
    using a(1) entries_node_id[of _ _ g]
    by (metis (no_types, lifting) case_prodI2 image_eqI keys_def set_map fst_conv)
  from build_index_keys[OF this] a show "map fst (fst (index_of g)) = keys g"
    "map fst (snd (index_of g)) = keys g"
    by (simp_all add: index_of_def)
qed


lemma add_deps_values:
  "map_of deg i = Some v \<Longrightarrow>
   map_of (fst (add_deps i ds (deg, ad))) x =
     (if x = i then Some (v + int (length (filter (\<lambda>d. d \<in> fst ` set ad) ds))) else map_of deg x) \<and>
   map_of (snd (add_deps i ds (deg, ad))) d =
     (case map_of ad d of None \<Rightarrow> None | Some xs \<Rightarrow> Some (xs @ replicate (count_list ds d) i))"
proof (induction ds arbitrary: deg ad v)
  case Nil
  then show ?case by (simp split: option.splits)
next
  case (Cons a ds)
  show ?case
  proof (cases "map_of ad a")
    case None
    then have "a \<notin> fst ` set ad" by (simp add: map_of_eq_None_iff)
    then show ?thesis using Cons None by (auto split: option.splits)
  next
    case (Some xs)
    then have m: "a \<in> fst ` set ad" by (simp add: map_of_eq_Some_iff_key)
    let ?deg = "AList.update i (v + 1) deg" and ?ad = "AList.update a (xs @ [i]) ad"
    have k: "fst ` set ?ad = fst ` set ad" using m by (auto simp: dom_update)
    have v: "map_of ?deg i = Some (v + 1)" by (simp add: update_conv')
    show ?thesis
      using Cons.IH[OF v, of ?ad] Cons.prems Some m
      by (auto simp: k update_conv' replicate_append_same split: option.splits)
  qed
qed

definition dependents :: "(string \<times> tracked) list \<Rightarrow> string \<Rightarrow> string list" where
  "dependents ns d = concat (map (\<lambda>kn. replicate (count_list (dependsOn (snd kn)) d) (fst kn)) ns)"

lemma build_index_values:
  "distinct (map fst ns) \<Longrightarrow> \<forall>(k, n) \<in> set ns. node_id n = k \<and> k \<in> fst ` set deg \<Longrightarrow>
   map_of (fst (build_index ns (deg, ad))) x =
     (case map_of ns x of
        None \<Rightarrow> map_of deg x
      | Some n \<Rightarrow> Some (the (map_of deg x) + int (length (filter (\<lambda>d. d \<in> fst ` set ad) (dependsOn n))))) \<and>
   map_of (snd (build_index ns (deg, ad))) d =
     (case map_of ad d of None \<Rightarrow> None | Some xs \<Rightarrow> Some (xs @ dependents ns d))"
proof (induction ns arbitrary: deg ad)
  case Nil
  then show ?case by (simp add: dependents_def split: option.splits)
next
  case (Cons kn ns)
  obtain k n where kn: "kn = (k, n)" by (cases kn)
  have nk: "node_id n = k" "k \<in> fst ` set deg" "k \<notin> fst ` set ns"
    using Cons.prems kn by auto
  then obtain v where v: "map_of deg k = Some v"
    by (metis map_of_eq_None_iff not_Some_eq)
  obtain deg' ad' where a: "add_deps k (dependsOn n) (deg, ad) = (deg', ad')"
    by (cases "add_deps k (dependsOn n) (deg, ad)")
  have keys: "map fst deg' = map fst deg" "map fst ad' = map fst ad"
    using add_deps_keys[of k "(deg, ad)" "dependsOn n"] nk(2) a by auto
  then have ks: "fst ` set deg' = fst ` set deg" "fst ` set ad' = fst ` set ad"
    by (metis set_map)+
  have vals: "\<And>x. map_of deg' x =
      (if x = k then Some (v + int (length (filter (\<lambda>d. d \<in> fst ` set ad) (dependsOn n)))) else map_of deg x)"
    "\<And>d. map_of ad' d = (case map_of ad d of None \<Rightarrow> None
                          | Some xs \<Rightarrow> Some (xs @ replicate (count_list (dependsOn n) d) k))"
    using add_deps_values[OF v, of "dependsOn n" ad] a by auto
  have pre: "distinct (map fst ns)" "\<forall>(k, n) \<in> set ns. node_id n = k \<and> k \<in> fst ` set deg'"
    using Cons.prems ks by auto
  have nx: "map_of ns k = None" using nk(3) by (simp add: map_of_eq_None_iff)
  show ?case
    using Cons.IH[OF pre, of ad'] a kn nk(1) v nx
    by (auto simp: vals ks dependents_def split: option.splits)
qed

lemma map_of_Map_new_const:
  "map_of (Map_new (map (\<lambda>n. (f n, c)) g)) x = (if x \<in> f ` set g then Some c else None)"
proof (cases "x \<in> f ` set g")
  case False
  then have "x \<notin> fst ` set (Map_new (map (\<lambda>n. (f n, c)) g))"
    by (simp add: Map_new_keys_set image_image)
  then show ?thesis using False by (simp add: map_of_eq_None_iff)
next
  case True
  then have "x \<in> fst ` set (Map_new (map (\<lambda>n. (f n, c)) g))"
    by (simp add: Map_new_keys_set image_image)
  then obtain v where v: "map_of (Map_new (map (\<lambda>n. (f n, c)) g)) x = Some v"
    by (metis map_of_eq_None_iff not_Some_eq)
  then have "(x, v) \<in> set (Map_new (map (\<lambda>n. (f n, c)) g))" by (rule map_of_SomeD)
  then have "v = c" by (rule Map_new_values[rotated]) auto
  then show ?thesis using v True by simp
qed

lemma index_in_degree:
  assumes "map_of (entries g) x = Some n"
  shows "map_of (fst (index_of g)) x
         = Some (int (length (filter (\<lambda>d. d \<in> set (keys g)) (dependsOn n))))"
proof -
  let ?deg = "Map_new (map (\<lambda>n. (node_id n, 0::int)) g)"
  let ?ad = "Map_new (map (\<lambda>n. (node_id n, []::string list)) g)"
  have kd: "fst ` set ?deg = set (keys g)" "fst ` set ?ad = set (keys g)"
    by (simp_all add: Map_new_keys_set image_image keys_set)
  have pre: "distinct (map fst (entries g))"
    "\<forall>(k, n) \<in> set (entries g). node_id n = k \<and> k \<in> fst ` set ?deg"
    using keys_distinct[of g] entries_node_id[of _ _ g] kd
    by (auto simp: keys_def rev_image_eqI)
  have "x \<in> set (keys g)" using assms by (metis keys_def map_of_eq_Some_iff_key set_map)
  then have "map_of ?deg x = Some 0" by (simp add: map_of_Map_new_const keys_set)
  then show ?thesis
    using build_index_values[OF pre, of ?ad x] assms by (simp add: index_of_def kd)
qed

lemma index_adj:
  "map_of (snd (index_of g)) d = (if d \<in> set (keys g) then Some (dependents (entries g) d) else None)"
proof -
  let ?deg = "Map_new (map (\<lambda>n. (node_id n, 0::int)) g)"
  let ?ad = "Map_new (map (\<lambda>n. (node_id n, []::string list)) g)"
  have kd: "fst ` set ?deg = set (keys g)"
    by (simp_all add: Map_new_keys_set image_image keys_set)
  have pre: "distinct (map fst (entries g))"
    "\<forall>(k, n) \<in> set (entries g). node_id n = k \<and> k \<in> fst ` set ?deg"
    using keys_distinct[of g] entries_node_id[of _ _ g] kd
    by (auto simp: keys_def rev_image_eqI)
  show ?thesis
    using build_index_values[OF pre, of ?ad _ d]
    by (simp add: index_of_def map_of_Map_new_const keys_set)
qed

lemma dependents_set: "set (dependents ns d) \<subseteq> fst ` set ns"
  by (force simp: dependents_def)

lemma dependents_count:
  "distinct (map fst ns) \<Longrightarrow>
   count_list (dependents ns d) x =
     (case map_of ns x of None \<Rightarrow> 0 | Some n \<Rightarrow> count_list (dependsOn n) d)"
proof (induction ns)
  case Nil
  then show ?case by (simp add: dependents_def)
next
  case (Cons kn ns)
  obtain k n where kn: "kn = (k, n)" by (cases kn)
  have c: "count_list (replicate m k) x = (if x = k then m else 0)" for m
    by (induction m) auto
  have "x = k \<Longrightarrow> map_of ns x = None" using Cons.prems kn by (simp add: map_of_eq_None_iff)
  then show ?case using Cons kn
    by (auto simp: dependents_def c split: option.splits)
qed

subsection \<open>What the effects change\<close>

lemma perform_all_Nil [simp]: "perform_all [] s = s"
  by (simp add: perform_all_def)

lemma perform_all_Cons [simp]: "perform_all (e # es) s = perform_all es (perform e s)"
  by (simp add: perform_all_def)

lemma perform_all_append: "perform_all (es @ fs) s = perform_all fs (perform_all es s)"
  by (simp add: perform_all_def)

text \<open>The ids the loop over an adjacency list enqueues, and the counters it leaves.\<close>

fun pushed :: "string list \<Rightarrow> (string \<times> int) list \<Rightarrow> string list" where
  "pushed [] deg = []"
| "pushed (d # ds) deg =
     (case map_of deg d of
        None \<Rightarrow> pushed ds deg
      | Some v \<Rightarrow> (if v - 1 = 0 then [d] else []) @ pushed ds (AList.update d (v - 1) deg))"

fun lowered :: "string list \<Rightarrow> (string \<times> int) list \<Rightarrow> (string \<times> int) list" where
  "lowered [] deg = deg"
| "lowered (d # ds) deg =
     (case map_of deg d of
        None \<Rightarrow> lowered ds deg
      | Some v \<Rightarrow> lowered ds (AList.update d (v - 1) deg))"

lemma unblock_eq:
  "unblock ds s = s\<lparr>inDegree := lowered ds (inDegree s),
                     queue := queue s @ pushed ds (inDegree s),
                     trace := trace s @ map Enqueue (pushed ds (inDegree s))\<rparr>"
proof (induction ds arbitrary: s)
  case Nil
  then show ?case by simp
next
  case (Cons d ds)
  show ?case
  proof (cases "map_of (inDegree s) d")
    case None
    then show ?thesis using Cons by simp
  next
    case (Some v)
    then show ?thesis using Cons by simp
  qed
qed

definition adjacent :: "sys \<Rightarrow> string \<Rightarrow> string list" where
  "adjacent s i = (case map_of (adj s) i of None \<Rightarrow> [] | Some ds \<Rightarrow> ds)"

lemma perform_Unblock:
  "perform (Unblock i) s =
     s\<lparr>inDegree := lowered (adjacent s i) (inDegree s),
       queue := queue s @ pushed (adjacent s i) (inDegree s),
       trace := trace s @ Unblock i # map Enqueue (pushed (adjacent s i) (inDegree s))\<rparr>"
  by (simp add: unblock_eq adjacent_def)

lemma perform_const [simp]:
  "buildId (perform e s) = buildId s"
  "adj (perform e s) = adj s"
  "wave (perform e s) = wave s"
  "promises (perform e s) = promises s"
  by (cases e; simp add: unblock_eq)+

lemma perform_all_const [simp]:
  "buildId (perform_all es s) = buildId s"
  "adj (perform_all es s) = adj s"
  "wave (perform_all es s) = wave s"
  "promises (perform_all es s) = promises s"
  by (induction es arbitrary: s; simp)+

lemma emitted_frame [simp]:
  "nodes (perform_all (emitted b st ps d) s) = nodes s"
  "inDegree (perform_all (emitted b st ps d) s) = inDegree s"
  "queue (perform_all (emitted b st ps d) s) = queue s"
  "completedCount (perform_all (emitted b st ps d) s) = completedCount s"
  "previewUrl (perform_all (emitted b st ps d) s) = previewUrl s"
  "result (perform_all (emitted b st ps d) s) = result s"
  "trace (perform_all (emitted b st ps d) s) = trace s @ emitted b st ps d"
  by (simp_all add: emitted_def)

text \<open>The nodes map up to the statuses.\<close>

definition unmarked :: "(string \<times> tracked) list \<Rightarrow> (string \<times> tracked) list" where
  "unmarked ns = map (\<lambda>kn. (fst kn, (snd kn)\<lparr>status := Pending\<rparr>)) ns"

lemma unmarked_map_entry [simp]:
  "unmarked (AList.map_entry i (\<lambda>n. n\<lparr>status := st\<rparr>) ns) = unmarked ns"
  by (induction ns) (auto simp: unmarked_def)

lemma unmarked_keys [simp]: "map fst (unmarked ns) = map fst ns"
  by (simp add: unmarked_def comp_def)

lemma unmarked_lookup:
  "map_of (unmarked ns) i = map_option (\<lambda>n. n\<lparr>status := Pending\<rparr>) (map_of ns i)"
  by (induction ns) (auto simp: unmarked_def)

lemma perform_unmarked [simp]: "unmarked (nodes (perform e s)) = unmarked (nodes s)"
  by (cases e) (simp_all add: unblock_eq)

lemma perform_all_unmarked [simp]: "unmarked (nodes (perform_all es s)) = unmarked (nodes s)"
  by (induction es arbitrary: s) simp_all

lemma lowered_keys [simp]: "map fst (lowered ds deg) = map fst deg"
proof (induction ds arbitrary: deg)
  case Nil
  then show ?case by simp
next
  case (Cons d ds)
  then show ?case
    by (auto simp: update_keys map_of_eq_Some_iff_key split: option.splits)
qed

lemma pushed_keys: "set (pushed ds deg) \<subseteq> fst ` set deg"
proof (induction ds arbitrary: deg)
  case Nil
  then show ?case by simp
next
  case (Cons d ds)
  show ?case
  proof (cases "map_of deg d")
    case None
    then show ?thesis using Cons by simp
  next
    case (Some v)
    have "fst ` set (AList.update d (v - 1) deg) = fst ` set deg"
      using map_of_eq_Some_iff_key[OF Some] by (auto simp: dom_update)
    then show ?thesis using Cons[of "AList.update d (v - 1) deg"] Some map_of_eq_Some_iff_key[OF Some]
      by auto
  qed
qed

lemma task_effect_keys:
  "task_effect e \<Longrightarrow>
   map fst (inDegree (perform e s)) = map fst (inDegree s) \<and>
   set (queue (perform e s)) \<subseteq> set (queue s) \<union> fst ` set (inDegree s)"
  using pushed_keys[of "adjacent s i" "inDegree s" for i]
  by (cases e) (auto simp: unblock_eq adjacent_def simp del: pushed.simps lowered.simps)

lemma task_effects_keys:
  "\<forall>e \<in> set es. task_effect e \<Longrightarrow>
   map fst (inDegree (perform_all es s)) = map fst (inDegree s) \<and>
   set (queue (perform_all es s)) \<subseteq> set (queue s) \<union> fst ` set (inDegree s)"
proof (induction es arbitrary: s)
  case Nil
  then show ?case by simp
next
  case (Cons e es)
  have a: "map fst (inDegree (perform e s)) = map fst (inDegree s)"
    "set (queue (perform e s)) \<subseteq> set (queue s) \<union> fst ` set (inDegree s)"
    using task_effect_keys[of e s] Cons.prems by auto
  have "fst ` set (inDegree (perform e s)) = fst ` set (inDegree s)"
    using a(1) by (metis set_map)
  then show ?case using Cons.IH[of "perform e s"] Cons.prems a by auto
qed


subsection \<open>The shape of reachable states\<close>

definition proper :: "jobData \<Rightarrow> sys \<Rightarrow> bool" where
  "proper j s \<longleftrightarrow>
     buildId s = jobBuildId j \<and>
     unmarked (nodes s) = entries (workGraph j) \<and>
     adj s = snd (index_of (workGraph j)) \<and>
     map fst (inDegree s) = keys (workGraph j) \<and>
     set (queue s) \<subseteq> set (keys (workGraph j)) \<and>
     fst ` set (promises s) \<subseteq> set (keys (workGraph j))"

lemma begin_task_frame [simp]:
  "inDegree (perform_all (begin_task b n) s) = inDegree s"
  "queue (perform_all (begin_task b n) s) = queue s"
  "completedCount (perform_all (begin_task b n) s) = completedCount s"
  "previewUrl (perform_all (begin_task b n) s) = previewUrl s"
  "result (perform_all (begin_task b n) s) = result s"
  "trace (perform_all (begin_task b n) s) = trace s @ begin_task b n"
  "nodes (perform_all (begin_task b n) s)
     = AList.map_entry (node_id n) (\<lambda>n. n\<lparr>status := Running\<rparr>) (nodes s)"
  by (simp_all add: begin_task_def)

lemma dispatch_frame [simp]:
  "buildId (dispatch i s) = buildId s"
  "adj (dispatch i s) = adj s"
  "wave (dispatch i s) = wave s"
  "inDegree (dispatch i s) = inDegree s"
  "queue (dispatch i s) = queue s"
  "completedCount (dispatch i s) = completedCount s"
  "previewUrl (dispatch i s) = previewUrl s"
  "result (dispatch i s) = result s"
  "unmarked (nodes (dispatch i s)) = unmarked (nodes s)"
  "map fst (promises (dispatch i s)) = map fst (promises s) @ [i]"
  by (simp_all add: dispatch_def split: option.splits)

definition dispatch_all :: "string list \<Rightarrow> sys \<Rightarrow> sys" where
  "dispatch_all batch s = foldl (\<lambda>t i. dispatch i t) s batch"

lemma dispatch_all_simps [simp]:
  "dispatch_all [] s = s"
  "dispatch_all (i # batch) s = dispatch_all batch (dispatch i s)"
  by (simp_all add: dispatch_all_def)

lemma dispatch_all_frame [simp]:
  "buildId (dispatch_all batch s) = buildId s"
  "adj (dispatch_all batch s) = adj s"
  "wave (dispatch_all batch s) = wave s"
  "inDegree (dispatch_all batch s) = inDegree s"
  "queue (dispatch_all batch s) = queue s"
  "completedCount (dispatch_all batch s) = completedCount s"
  "previewUrl (dispatch_all batch s) = previewUrl s"
  "result (dispatch_all batch s) = result s"
  "unmarked (nodes (dispatch_all batch s)) = unmarked (nodes s)"
  "map fst (promises (dispatch_all batch s)) = map fst (promises s) @ batch"
  by (induction batch arbitrary: s; simp)+

text \<open>The two ways a wave can go on, and the end of the loop.\<close>

definition announced :: "sys \<Rightarrow> sys" where
  "announced s =
     perform_all (emitted (buildId s) (StartingBatch (length (queue s))) PActive [])
       (s\<lparr>queue := [], wave := wave s + 1\<rparr>)"

definition started :: "sys \<Rightarrow> sys" where
  "started s = dispatch_all (queue s) ((announced s)\<lparr>promises := []\<rparr>)"

lemma next_wave_cases:
  "next_wave ev s =
     (if queue s = [] then finish ev s
      else case acked ev (buildId s) (wave s + 1) (StartingBatch (length (queue s))) of
             Some e \<Rightarrow> perform (Settle (FailedWith (Thrown e))) (announced s)
           | None \<Rightarrow> (case first_rejected (promises (started s)) of
                        Some c \<Rightarrow> perform (Settle (FailedWith c)) (started s)
                      | None \<Rightarrow> started s))"
  unfolding next_wave_def Let_def announced_def started_def dispatch_all_def
  by (simp del: perform.simps)

lemma announced_frame [simp]:
  "buildId (announced s) = buildId s"
  "adj (announced s) = adj s"
  "wave (announced s) = wave s + 1"
  "nodes (announced s) = nodes s"
  "inDegree (announced s) = inDegree s"
  "queue (announced s) = []"
  "completedCount (announced s) = completedCount s"
  "previewUrl (announced s) = previewUrl s"
  "result (announced s) = result s"
  "promises (announced s) = promises s"
  "trace (announced s) = trace s @ emitted (buildId s) (StartingBatch (length (queue s))) PActive []"
  by (simp_all add: announced_def)

lemma started_frame [simp]:
  "buildId (started s) = buildId s"
  "adj (started s) = adj s"
  "wave (started s) = wave s + 1"
  "inDegree (started s) = inDegree s"
  "queue (started s) = []"
  "completedCount (started s) = completedCount s"
  "previewUrl (started s) = previewUrl s"
  "result (started s) = result s"
  "unmarked (nodes (started s)) = unmarked (nodes s)"
  "map fst (promises (started s)) = queue s"
  by (simp_all add: started_def)

lemma perform_Settle_frame [simp]:
  "nodes (perform (Settle r) s) = nodes s"
  "inDegree (perform (Settle r) s) = inDegree s"
  "queue (perform (Settle r) s) = queue s"
  "completedCount (perform (Settle r) s) = completedCount s"
  "previewUrl (perform (Settle r) s) = previewUrl s"
  "result (perform (Settle r) s) = Some r"
  "trace (perform (Settle r) s) = trace s @ [Settle r]"
  by simp_all

lemma finish_cases:
  "finish ev s =
     (if completedCount s \<noteq> length (nodes s) then perform (Settle (FailedWith Incomplete)) s
      else perform
             (Settle (case acked ev (buildId s) (wave s) Deployed of
                        Some e \<Rightarrow> FailedWith (Thrown e)
                      | None \<Rightarrow> Succeeded (buildId s) (previewUrl s)))
             (perform_all (emitted (buildId s) Deployed PCompleted []) s))"
  by (simp add: finish_def Let_def del: perform.simps split: option.splits)

lemma finish_frame [simp]:
  "buildId (finish ev s) = buildId s"
  "adj (finish ev s) = adj s"
  "wave (finish ev s) = wave s"
  "nodes (finish ev s) = nodes s"
  "inDegree (finish ev s) = inDegree s"
  "queue (finish ev s) = queue s"
  "completedCount (finish ev s) = completedCount s"
  "previewUrl (finish ev s) = previewUrl s"
  "promises (finish ev s) = promises s"
  by (simp_all add: finish_cases del: perform.simps)

lemma proper_Settle: "proper j s \<Longrightarrow> proper j (perform (Settle r) s)"
  by (simp add: proper_def del: perform.simps)

lemma proper_next_wave: "proper j s \<Longrightarrow> proper j (next_wave ev s)"
proof -
  assume p: "proper j s"
  have a: "proper j (announced s)" using p by (simp add: proper_def)
  have "fst ` set (promises (started s)) = set (queue s)"
    by (metis started_frame(10) set_map)
  then have b: "proper j (started s)" using p by (simp add: proper_def)
  have c: "proper j (finish ev s)" using p by (simp add: proper_def)
  show ?thesis using a b c
    by (simp add: next_wave_cases proper_Settle del: perform.simps split: option.splits)
qed

lemma proper_controller: "proper j s \<Longrightarrow> proper j (controller ev s)"
  by (simp add: controller_def proper_Settle proper_next_wave del: perform.simps split: option.splits)

lemma advance_frame2 [simp]:
  "buildId (advance ev k s) = buildId s"
  "adj (advance ev k s) = adj s"
  "wave (advance ev k s) = wave s"
  "unmarked (nodes (advance ev k s)) = unmarked (nodes s)"
  by (simp_all add: advance_def)

lemma proper_advance:
  assumes "proper j s" "k < length (promises s)"
  shows "proper j (advance ev k s)"
proof -
  let ?s1 = "s\<lparr>promises := (promises s)[k := (fst (promises s ! k), fst (segment ev k s))]\<rparr>"
  have e: "\<forall>e \<in> set (snd (segment ev k s)). task_effect e"
    by (simp add: segment_effects)
  have q: "map fst (inDegree (advance ev k s)) = map fst (inDegree s)"
    "set (queue (advance ev k s)) \<subseteq> set (queue s) \<union> fst ` set (inDegree s)"
    using task_effects_keys[OF e, of ?s1] by (simp_all add: advance_def)
  have "fst ` set (inDegree s) = set (keys (workGraph j))"
    using assms(1) by (metis proper_def set_map)
  moreover have "map fst ((promises s)[k := (fst (promises s ! k), p)]) = map fst (promises s)" for p
    using assms(2) by (simp add: map_update list_update_same_conv)
  then have "fst ` set (promises (advance ev k s)) = fst ` set (promises s)"
    by (metis advance_frame(2) set_map)
  ultimately show ?thesis using assms(1) q by (auto simp: proper_def)
qed

lemma Enqueue_all_frame:
  "nodes (perform_all (map Enqueue xs) s) = nodes s"
  "inDegree (perform_all (map Enqueue xs) s) = inDegree s"
  "queue (perform_all (map Enqueue xs) s) = queue s @ xs"
  "trace (perform_all (map Enqueue xs) s) = trace s @ map Enqueue xs"
  "completedCount (perform_all (map Enqueue xs) s) = completedCount s"
  "previewUrl (perform_all (map Enqueue xs) s) = previewUrl s"
  "result (perform_all (map Enqueue xs) s) = result s"
  by (induction xs arbitrary: s; simp)+

definition initially_ready :: "node list \<Rightarrow> string list" where
  "initially_ready g = map fst (filter (\<lambda>kv. snd kv = 0) (fst (index_of g)))"

lemma greeted_fields [simp]:
  "queue (greeted b) = []" "promises (greeted b) = []" "buildId (greeted b) = b"
  "result (greeted b) = None" "trace (greeted b) = emitted b Initializing PActive []"
  "completedCount (greeted b) = 0" "previewUrl (greeted b) = None" "wave (greeted b) = 0"
  by (simp_all add: greeted_def initial_def)

lemma ready_fields [simp]:
  "buildId (ready g s) = buildId s"
  "nodes (ready g s) = entries g"
  "inDegree (ready g s) = fst (index_of g)"
  "adj (ready g s) = snd (index_of g)"
  "queue (ready g s) = queue s @ initially_ready g"
  "promises (ready g s) = promises s"
  "trace (ready g s) = trace s @ map Enqueue (initially_ready g)"
  "result (ready g s) = result s"
  "completedCount (ready g s) = completedCount s"
  "previewUrl (ready g s) = previewUrl s"
  "wave (ready g s) = wave s"
  unfolding ready_def initially_ready_def[symmetric]
  by (simp_all add: Enqueue_all_frame)

lemma unmarked_entries [simp]: "unmarked (entries g) = entries g"
  using entries_node_id[of _ _ g] by (auto simp: unmarked_def intro!: map_idI)

lemma initially_ready_keys: "set (initially_ready g) \<subseteq> set (keys g)"
  using index_keys(1)[of g] unfolding initially_ready_def
  by (metis (no_types, lifting) filter_is_subset image_mono set_map)

lemma proper_ready: "proper j (ready (workGraph j) (greeted (jobBuildId j)))"
  by (simp add: proper_def index_keys initially_ready_keys)

lemma reach_proper: "reach ev j s \<Longrightarrow> proper j s"
proof (induction rule: reach.induct)
  case reach_launch
  then show ?case by (simp add: launch_def proper_next_wave proper_ready)
next
  case (reach_step s k)
  then show ?case by (simp add: sys_step_def proper_controller proper_advance)
qed

subsection \<open>A wave and the result\<close>

definition first_promise :: "(string \<times> tracked) list \<Rightarrow> string \<Rightarrow> pc" where
  "first_promise ns i = (if i \<in> fst ` set ns then AwaitActive else Rejected (Thrown type_error))"

definition first_effects :: "string \<Rightarrow> (string \<times> tracked) list \<Rightarrow> string list \<Rightarrow> effect list" where
  "first_effects b ns batch =
     concat (map (\<lambda>i. case map_of ns i of None \<Rightarrow> [] | Some n \<Rightarrow> begin_task b n) batch)"

lemma begin_task_status [simp]: "begin_task b (n\<lparr>status := st\<rparr>) = begin_task b n"
  by (simp add: begin_task_def)

lemma map_entry_keys [simp]: "fst ` set (AList.map_entry i f ns) = fst ` set ns"
  by (induction ns) auto

lemma dispatch_promises:
  "promises (dispatch i s) = promises s @ [(i, first_promise (nodes s) i)]"
  "trace (dispatch i s) = trace s @ first_effects (buildId s) (unmarked (nodes s)) [i]"
  "fst ` set (nodes (dispatch i s)) = fst ` set (nodes s)"
  by (auto simp: dispatch_def first_promise_def first_effects_def unmarked_lookup
        map_of_eq_None_iff map_of_eq_Some_iff_key split: option.splits)

lemma dispatch_all_promises:
  "promises (dispatch_all batch s) = promises s @ map (\<lambda>i. (i, first_promise (nodes s) i)) batch
   \<and> trace (dispatch_all batch s) = trace s @ first_effects (buildId s) (unmarked (nodes s)) batch
   \<and> fst ` set (nodes (dispatch_all batch s)) = fst ` set (nodes s)"
proof (induction batch arbitrary: s)
  case Nil
  then show ?case by (simp add: first_effects_def)
next
  case (Cons i batch)
  show ?case using Cons[of "dispatch i s"]
    by (simp add: dispatch_promises first_promise_def) (simp add: first_effects_def)
qed

lemma started_promises:
  "promises (started s) = map (\<lambda>i. (i, first_promise (nodes s) i)) (queue s)"
  "trace (started s) = trace s @ emitted (buildId s) (StartingBatch (length (queue s))) PActive []
                        @ first_effects (buildId s) (unmarked (nodes s)) (queue s)"
  using dispatch_all_promises[of "queue s" "(announced s)\<lparr>promises := []\<rparr>"]
  by (simp_all add: started_def)

definition fulfilled :: "(string \<times> pc) list \<Rightarrow> bool" where
  "fulfilled ps = list_all (\<lambda>p. snd p = Fulfilled) ps"

definition waiting :: "sys \<Rightarrow> bool" where
  "waiting s \<longleftrightarrow>
     (result s = None \<longrightarrow>
        first_rejected (promises s) = None \<and> (\<exists>p \<in> set (promises s). in_flight (snd p))) \<and>
     (\<forall>b u. result s = Some (Succeeded b u) \<longrightarrow>
        fulfilled (promises s) \<and> completedCount s = length (nodes s) \<and>
        b = buildId s \<and> u = previewUrl s)"

lemma first_rejected_None_iff:
  "first_rejected ps = None \<longleftrightarrow> (\<forall>p \<in> set ps. \<forall>c. snd p \<noteq> Rejected c)"
  by (induction ps) (auto split: pc.splits)

lemma not_fulfilled_in_flight:
  "first_rejected ps = None \<Longrightarrow> \<not> fulfilled ps \<Longrightarrow> \<exists>p \<in> set ps. in_flight (snd p)"
proof -
  assume a: "first_rejected ps = None" "\<not> fulfilled ps"
  then obtain p where p: "p \<in> set ps" "snd p \<noteq> Fulfilled"
    by (auto simp: fulfilled_def list_all_iff)
  then have "in_flight (snd p)" using a(1) by (cases "snd p") (auto simp: first_rejected_None_iff)
  then show ?thesis using p by blast
qed

lemma waiting_Settle_failed: "waiting (perform (Settle (FailedWith c)) s)"
  by (simp add: waiting_def)

lemma waiting_finish: "fulfilled (promises s) \<Longrightarrow> waiting (finish ev s)"
  by (simp add: finish_cases waiting_def split: option.splits)

lemma waiting_started:
  assumes "queue s \<noteq> []" "result s = None" "first_rejected (promises (started s)) = None"
  shows "waiting (started s)"
proof -
  obtain i where i: "i \<in> set (queue s)" using assms(1) by (cases "queue s") auto
  then have m: "(i, first_promise (nodes s) i) \<in> set (promises (started s))"
    by (auto simp: started_promises)
  then have "first_promise (nodes s) i = AwaitActive"
    using assms(3) by (auto simp: first_rejected_None_iff first_promise_def split: if_splits)
  then have "\<exists>p \<in> set (promises (started s)). in_flight (snd p)"
    using m by force
  then show ?thesis using assms by (simp add: waiting_def)
qed

lemma waiting_next_wave:
  "result s = None \<Longrightarrow> fulfilled (promises s) \<Longrightarrow> waiting (next_wave ev s)"
  by (simp add: next_wave_cases waiting_finish waiting_Settle_failed waiting_started
        del: perform.simps split: option.splits)

lemma waiting_controller:
  "(result s \<noteq> None \<Longrightarrow> waiting s) \<Longrightarrow> waiting (controller ev s)"
proof (cases "result s")
  case (Some r)
  assume "result s \<noteq> None \<Longrightarrow> waiting s"
  then show ?thesis using Some by (simp add: controller_def)
next
  case None
  show ?thesis
  proof (cases "first_rejected (promises s)")
    case (Some c)
    then show ?thesis using None by (simp add: controller_def waiting_Settle_failed del: perform.simps)
  next
    case fr: None
    show ?thesis
    proof (cases "fulfilled (promises s)")
      case True
      then show ?thesis using None fr waiting_next_wave[of s ev]
        by (simp add: controller_def fulfilled_def)
    next
      case False
      then show ?thesis using None fr not_fulfilled_in_flight[OF fr False]
        by (simp add: controller_def fulfilled_def waiting_def)
    qed
  qed
qed

lemma waiting_sys_step:
  assumes "waiting s" "k < length (promises s)" "in_flight (snd (promises s ! k))"
  shows "waiting (sys_step ev k s)"
proof -
  have "\<not> fulfilled (promises s)"
    using assms(2,3) by (auto simp: fulfilled_def list_all_length)
  then have "\<And>b u. result s \<noteq> Some (Succeeded b u)"
    using assms(1) by (auto simp: waiting_def)
  then have "result (advance ev k s) \<noteq> None \<Longrightarrow> waiting (advance ev k s)"
    by (cases "result s") (auto simp: waiting_def advance_frame)
  then show ?thesis unfolding sys_step_def by (rule waiting_controller)
qed

lemma waiting_launch: "waiting (launch ev j)"
  by (simp add: launch_def waiting_next_wave fulfilled_def)

lemma reach_waiting: "reach ev j s \<Longrightarrow> waiting s"
  by (induction rule: reach.induct) (simp_all add: waiting_launch waiting_sys_step)

text \<open>The pipeline always settles.\<close>

lemma pipeline_settles: "result (executeBuildPipeline ev sched j) \<noteq> None"
proof -
  consider (a) e where "executeBuildPipeline ev sched j = aborted (jobBuildId j) e"
    | (b) "reach ev j (executeBuildPipeline ev sched j)"
    using pipeline_cases[of ev j sched] by blast
  then show ?thesis
  proof cases
    case a
    then show ?thesis by (simp add: aborted_fields)
  next
    case b
    have "\<forall>p \<in> set (promises (executeBuildPipeline ev sched j)). \<not> in_flight (snd p)"
      by (simp add: executeBuildPipeline_def exec_settled)
    then show ?thesis using reach_waiting[OF b] by (auto simp: waiting_def)
  qed
qed

subsection \<open>Every node is enqueued and dispatched at most once\<close>

definition once :: "sys \<Rightarrow> bool" where
  "once s \<longleftrightarrow>
     distinct (queue s) \<and>
     (\<forall>x \<in> set (queue s). SetStatus x Running \<notin> set (trace s)) \<and>
     (\<forall>x v. map_of (inDegree s) x = Some v \<longrightarrow> 0 < v \<longrightarrow>
        x \<notin> set (queue s) \<and> SetStatus x Running \<notin> set (trace s) \<and> Enqueue x \<notin> set (trace s)) \<and>
     (\<forall>x. count_list (trace s) (SetStatus x Running) \<le> 1) \<and>
     (\<forall>x. count_list (trace s) (Enqueue x) \<le> 1)"

fun quiet :: "effect \<Rightarrow> bool" where
  "quiet (Enqueue i) = False"
| "quiet (Settle r) = False"
| "quiet (SetStatus i Running) = False"
| "quiet e = True"

lemma quiet_task_effect: "quiet e \<Longrightarrow> task_effect e"
  by (cases e) auto

lemma task_step_quiet: "e \<in> set (snd (task_step ev b w n p)) \<Longrightarrow> quiet e"
  by (cases p) (auto simp: catch_block_def mark_completed_def emitted_def split: option.splits sum.splits if_splits)

lemma segment_quiet: "e \<in> set (snd (segment ev k s)) \<Longrightarrow> quiet e"
  by (auto simp: segment_def task_step_quiet split: option.splits)

lemma pushed_positive: "x \<in> set (pushed ds deg) \<Longrightarrow> \<exists>v. map_of deg x = Some v \<and> 0 < v"
proof (induction ds arbitrary: deg)
  case Nil
  then show ?case by simp
next
  case (Cons d ds)
  show ?case
  proof (cases "map_of deg d")
    case None
    then show ?thesis using Cons by simp
  next
    case (Some v)
    show ?thesis
    proof (cases "x \<in> set (pushed ds (AList.update d (v - 1) deg))")
      case True
      from Cons.IH[OF True] obtain v' where v': "map_of (AList.update d (v - 1) deg) x = Some v'" "0 < v'"
        by blast
      then show ?thesis using Some by (cases "x = d") (auto simp: update_conv')
    next
      case False
      then show ?thesis using Cons.prems Some by (auto split: if_splits)
    qed
  qed
qed

lemma lowered_positive:
  "map_of (lowered ds deg) x = Some v' \<Longrightarrow> 0 < v' \<Longrightarrow>
   (\<exists>v. map_of deg x = Some v \<and> 0 < v) \<and> x \<notin> set (pushed ds deg)"
proof (induction ds arbitrary: deg)
  case Nil
  then show ?case by simp
next
  case (Cons d ds)
  show ?case
  proof (cases "map_of deg d")
    case None
    then show ?thesis using Cons by simp
  next
    case (Some v)
    have l: "map_of (lowered ds (AList.update d (v - 1) deg)) x = Some v'"
      using Cons.prems(1) Some by simp
    from Cons.IH[OF l Cons.prems(2)] obtain u where
      u: "map_of (AList.update d (v - 1) deg) x = Some u" "0 < u"
         "x \<notin> set (pushed ds (AList.update d (v - 1) deg))"
      by blast
    then show ?thesis using Some by (cases "x = d") (auto simp: update_conv')
  qed
qed

lemma pushed_distinct: "distinct (pushed ds deg)"
proof (induction ds arbitrary: deg)
  case Nil
  then show ?case by simp
next
  case (Cons d ds)
  show ?case
  proof (cases "map_of deg d")
    case None
    then show ?thesis using Cons by simp
  next
    case (Some v)
    have "v - 1 = 0 \<Longrightarrow> d \<notin> set (pushed ds (AList.update d (v - 1) deg))"
      using pushed_positive[of d ds "AList.update d (v - 1) deg"] by (auto simp: update_conv')
    then show ?thesis using Cons Some by auto
  qed
qed

lemma count_list_0: "x \<notin> set xs \<Longrightarrow> count_list xs x = 0"
  by (induction xs) auto

lemma count_list_distinct: "distinct xs \<Longrightarrow> count_list xs x \<le> 1"
  by (induction xs) (auto simp: count_list_0)

lemma count_list_map_Enqueue: "count_list (map Enqueue xs) (Enqueue x) = count_list xs x"
  by (induction xs) auto

lemma count_list_map_Enqueue_other: "(\<And>x. e \<noteq> Enqueue x) \<Longrightarrow> count_list (map Enqueue xs) e = 0"
  by (induction xs) auto

lemma once_Unblock:
  assumes "once s"
  shows "once (perform (Unblock i) s)"
proof -
  let ?ds = "adjacent s i"
  let ?p = "pushed ?ds (inDegree s)"
  have base: "\<And>x v. map_of (inDegree s) x = Some v \<Longrightarrow> 0 < v \<Longrightarrow>
      x \<notin> set (queue s) \<and> SetStatus x Running \<notin> set (trace s) \<and> Enqueue x \<notin> set (trace s)"
    using assms unfolding once_def by blast
  have pos: "x \<notin> set (queue s) \<and> SetStatus x Running \<notin> set (trace s) \<and> Enqueue x \<notin> set (trace s)"
    if "x \<in> set ?p" for x
    using pushed_positive[OF that] base by blast
  have low: "x \<notin> set (queue s) \<and> SetStatus x Running \<notin> set (trace s) \<and> Enqueue x \<notin> set (trace s) \<and> x \<notin> set ?p"
    if "map_of (lowered ?ds (inDegree s)) x = Some v" "0 < v" for x v
    using lowered_positive[OF that] base by blast
  have d: "distinct ?p" by (rule pushed_distinct)
  have c1: "count_list (trace s @ Unblock i # map Enqueue ?p) (SetStatus x Running)
            = count_list (trace s) (SetStatus x Running)" for x
    by (simp add: count_list_map_Enqueue_other)
  have c2: "count_list (trace s @ Unblock i # map Enqueue ?p) (Enqueue x) \<le> 1" for x
  proof (cases "x \<in> set ?p")
    case True
    then show ?thesis using pos[OF True] count_list_distinct[OF d, of x]
      by (simp add: count_list_0 count_list_map_Enqueue)
  next
    case False
    then show ?thesis using assms
      by (simp add: count_list_0 count_list_map_Enqueue once_def)
  qed
  define t where "t = perform (Unblock i) s"
  have f: "queue t = queue s @ ?p" "trace t = trace s @ Unblock i # map Enqueue ?p"
    "inDegree t = lowered ?ds (inDegree s)"
    by (simp_all add: t_def perform_Unblock del: perform.simps)
  have q: "distinct (queue s)" "\<forall>x \<in> set (queue s). SetStatus x Running \<notin> set (trace s)"
    "\<forall>x. count_list (trace s) (SetStatus x Running) \<le> 1"
    using assms by (simp_all add: once_def)
  have "once t"
    unfolding once_def f
  proof (intro conjI)
    show "distinct (queue s @ ?p)"
      using q(1) d pos by auto
    show "\<forall>x\<in>set (queue s @ ?p). SetStatus x Running \<notin> set (trace s @ Unblock i # map Enqueue ?p)"
      using q(2) pos by auto
    show "\<forall>x v. map_of (lowered ?ds (inDegree s)) x = Some v \<longrightarrow> 0 < v \<longrightarrow>
          x \<notin> set (queue s @ ?p) \<and>
          SetStatus x Running \<notin> set (trace s @ Unblock i # map Enqueue ?p) \<and>
          Enqueue x \<notin> set (trace s @ Unblock i # map Enqueue ?p)"
      using low by auto
    show "\<forall>x. count_list (trace s @ Unblock i # map Enqueue ?p) (SetStatus x Running) \<le> 1"
      using q(3) c1 by simp
    show "\<forall>x. count_list (trace s @ Unblock i # map Enqueue ?p) (Enqueue x) \<le> 1"
      using c2 by simp
  qed
  then show ?thesis by (simp add: t_def)
qed

lemma once_perform: "once s \<Longrightarrow> quiet e \<Longrightarrow> once (perform e s)"
proof (cases e)
  case (Unblock i)
  assume "once s"
  then show ?thesis using Unblock by (simp add: once_Unblock del: perform.simps)
next
  case (SetStatus i st)
  assume "once s" "quiet e"
  then show ?thesis using SetStatus by (cases st) (auto simp: once_def)
qed (auto simp: once_def)

lemma once_perform_all: "once s \<Longrightarrow> \<forall>e \<in> set es. quiet e \<Longrightarrow> once (perform_all es s)"
  by (induction es arbitrary: s) (simp_all add: once_perform del: perform.simps)

lemma once_advance: "once s \<Longrightarrow> once (advance ev k s)"
proof -
  assume "once s"
  then have "once (s\<lparr>promises := (promises s)[k := (fst (promises s ! k), fst (segment ev k s))]\<rparr>)"
    by (simp add: once_def)
  then show ?thesis unfolding advance_def
    by (rule once_perform_all) (simp add: segment_quiet)
qed


lemma begin_task_counts:
  "count_list (begin_task b n) (SetStatus x Running) = (if x = node_id n then 1 else 0)"
  "Enqueue x \<notin> set (begin_task b n)"
  by (auto simp: begin_task_def emitted_def)

lemma first_effects_Nil [simp]: "first_effects b ns [] = []"
  by (simp add: first_effects_def)

lemma first_effects_Cons [simp]:
  "first_effects b ns (i # batch) =
     (case map_of ns i of None \<Rightarrow> [] | Some n \<Rightarrow> begin_task b n) @ first_effects b ns batch"
  by (simp add: first_effects_def)

lemma first_effects_no_Enqueue: "Enqueue x \<notin> set (first_effects b ns batch)"
proof (induction batch)
  case Nil
  then show ?case by simp
next
  case (Cons i batch)
  then show ?case by (cases "map_of ns i") (simp_all add: begin_task_counts)
qed

lemma lookup_own_key:
  assumes "\<forall>(k, n) \<in> set ns. node_id n = k" "i \<in> fst ` set ns"
  shows "\<exists>n. map_of ns i = Some n \<and> node_id n = i"
proof -
  obtain n where n: "map_of ns i = Some n"
    using assms(2) by (metis map_of_eq_None_iff not_Some_eq)
  then have "(i, n) \<in> set ns" by (rule map_of_SomeD)
  then show ?thesis using assms(1) n by auto
qed

lemma first_effects_counts:
  assumes "\<forall>(k, n) \<in> set ns. node_id n = k" "set batch \<subseteq> fst ` set ns"
  shows "count_list (first_effects b ns batch) (SetStatus x Running) = count_list batch x"
  using assms(2)
proof (induction batch)
  case Nil
  then show ?case by simp
next
  case (Cons i batch)
  then obtain n where n: "map_of ns i = Some n" "node_id n = i"
    using lookup_own_key[OF assms(1), of i] by auto
  have "count_list (first_effects b ns batch) (SetStatus x Running) = count_list batch x"
    using Cons by simp
  then show ?case using n by (simp add: begin_task_counts(1))
qed

lemma once_Settle: "once s \<Longrightarrow> once (perform (Settle r) s)"
  by (simp add: once_def)

lemma once_emitted: "once s \<Longrightarrow> once (perform_all (emitted b st ps d) s)"
  by (simp add: once_def emitted_def)

lemma once_finish: "once s \<Longrightarrow> once (finish ev s)"
  by (simp add: finish_cases once_Settle once_emitted del: perform.simps)

lemma once_announced: "once s \<Longrightarrow> once (announced s)"
  by (simp add: once_def emitted_def)

lemma proper_nodes: "proper j s \<Longrightarrow> \<forall>(k, n) \<in> set (unmarked (nodes s)). node_id n = k"
  using entries_node_id[of _ _ "workGraph j"] by (auto simp: proper_def)

lemma once_started:
  assumes "once s" "proper j s"
  shows "once (started s)"
proof -
  let ?f = "first_effects (buildId s) (unmarked (nodes s)) (queue s)"
  let ?e = "emitted (buildId s) (StartingBatch (length (queue s))) PActive []"
  have sub: "set (queue s) \<subseteq> fst ` set (unmarked (nodes s))"
    using assms(2) by (metis keys_def proper_def set_map)
  note fc = first_effects_counts[OF proper_nodes[OF assms(2)] sub, where b = "buildId s"]
    first_effects_no_Enqueue[where b = "buildId s" and ns = "unmarked (nodes s)" and batch = "queue s"]
  have e: "count_list ?e (SetStatus x Running) = 0" "Enqueue x \<notin> set ?e" for x
    by (simp_all add: emitted_def)
  have q: "distinct (queue s)" "\<forall>x \<in> set (queue s). SetStatus x Running \<notin> set (trace s)"
    "\<forall>x. count_list (trace s) (SetStatus x Running) \<le> 1"
    "\<forall>x. count_list (trace s) (Enqueue x) \<le> 1"
    "\<forall>x v. map_of (inDegree s) x = Some v \<longrightarrow> 0 < v \<longrightarrow>
        x \<notin> set (queue s) \<and> SetStatus x Running \<notin> set (trace s) \<and> Enqueue x \<notin> set (trace s)"
    using assms(1) by (simp_all add: once_def)
  have r: "SetStatus x Running \<in> set ?f \<longleftrightarrow> x \<in> set (queue s)" for x
    using fc(1)[of x] by (metis count_list_0 count_list_0_iff)
  have c: "count_list (trace s @ ?e @ ?f) (SetStatus x Running) \<le> 1" for x
  proof (cases "x \<in> set (queue s)")
    case True
    then show ?thesis using q(2) count_list_distinct[OF q(1), of x]
      by (simp add: fc e count_list_0)
  next
    case False
    then show ?thesis using q(3) by (simp add: fc e count_list_0)
  qed
  have c2: "count_list (trace s @ ?e @ ?f) (Enqueue x) = count_list (trace s) (Enqueue x)" for x
    using fc(2)[of x] e(2)[of x] by (simp add: count_list_0)
  show ?thesis
    unfolding once_def started_promises(2) started_frame
    using q c c2 r e(2) fc(2) by (auto simp: emitted_def)
qed

lemma once_next_wave: "once s \<Longrightarrow> proper j s \<Longrightarrow> once (next_wave ev s)"
  by (simp add: next_wave_cases once_Settle once_finish once_announced once_started
        del: perform.simps split: option.splits)

lemma once_controller: "once s \<Longrightarrow> proper j s \<Longrightarrow> once (controller ev s)"
  by (simp add: controller_def once_Settle once_next_wave del: perform.simps split: option.splits)

lemma initially_ready_distinct: "distinct (initially_ready g)"
proof -
  have "distinct (map fst (fst (index_of g)))" by (simp add: index_keys keys_distinct)
  then show ?thesis unfolding initially_ready_def by (rule distinct_map_filter)
qed

lemma initially_ready_zero:
  "x \<in> set (initially_ready g) \<Longrightarrow> map_of (fst (index_of g)) x = Some 0"
proof -
  assume "x \<in> set (initially_ready g)"
  then have "(x, 0) \<in> set (fst (index_of g))" by (auto simp: initially_ready_def)
  moreover have "distinct (map fst (fst (index_of g)))" by (simp add: index_keys keys_distinct)
  ultimately show ?thesis by simp
qed

lemma once_ready: "once (ready g (greeted b))"
proof -
  have a: "count_list (map Enqueue (initially_ready g)) (SetStatus x Running) = 0"
    "count_list (map Enqueue (initially_ready g)) (Enqueue x) \<le> 1" for x
    using count_list_distinct[OF initially_ready_distinct[of g], of x]
    by (simp_all add: count_list_map_Enqueue count_list_map_Enqueue_other)
  have e: "count_list (emitted b Initializing PActive []) e = 0"
    if "\<And>st ps d. e \<noteq> Progress st ps d" for e
    using that by (simp add: emitted_def)
  show ?thesis
    using initially_ready_zero[of _ g] initially_ready_distinct[of g] a
    by (auto simp: once_def e simp del: count_list.simps) (auto simp: emitted_def split: if_splits)
qed

lemma reach_once: "reach ev j s \<Longrightarrow> once s"
proof (induction rule: reach.induct)
  case reach_launch
  then show ?case using once_next_wave[OF once_ready proper_ready] by (simp add: launch_def)
next
  case (reach_step s k)
  then show ?case
    using once_controller[OF once_advance proper_advance[OF reach_proper]]
    by (simp add: sys_step_def)
qed

subsection \<open>The history of one node\<close>

text \<open>The effects that are about node \<open>i\<close>.\<close>

fun concerns :: "string \<Rightarrow> effect \<Rightarrow> bool" where
  "concerns i (SetStatus x st) = (x = i)"
| "concerns i (Progress st ps d) = (st = Starting i \<or> st = CompletedStep i \<or> st = FailedStep i)"
| "concerns i (QueueAdd t x d) = (x = i)"
| "concerns i (Mkdir x f) = (x = i)"
| "concerns i (WriteFile x f c) = (x = i)"
| "concerns i (Upload x f c) = (x = i)"
| "concerns i (StartEnvironment x) = (x = i)"
| "concerns i (Unblock x) = (x = i)"
| "concerns i (SetPreviewUrl u) = False"
| "concerns i CountCompleted = False"
| "concerns i (Enqueue x) = False"
| "concerns i (Settle r) = False"

definition own :: "string \<Rightarrow> effect list \<Rightarrow> effect list" where
  "own i es = filter (concerns i) es"

lemma own_simps [simp]:
  "own i [] = []"
  "own i (e # es) = (if concerns i e then e # own i es else own i es)"
  "own i (es @ fs) = own i es @ own i fs"
  by (simp_all add: own_def)

text \<open>The effects of one arrow function so far, with the await it has reached.\<close>

inductive hist :: "env \<Rightarrow> string \<Rightarrow> nat \<Rightarrow> tracked \<Rightarrow> pc \<Rightarrow> effect list \<Rightarrow> bool"
  for ev :: env and b :: string and w :: nat and n :: tracked where
  hist_begin: "hist ev b w n AwaitActive (begin_task b n)"
| hist_step: "hist ev b w n p es \<Longrightarrow> in_flight p \<Longrightarrow>
              hist ev b w n (fst (task_step ev b w n p)) (es @ snd (task_step ev b w n p))"

lemma task_step_status [simp]: "task_step ev b w (n\<lparr>status := st\<rparr>) p = task_step ev b w n p"
  by (cases p) (simp_all add: catch_block_def mark_completed_def split: option.splits sum.splits)

lemma emitted_own:
  "own x (emitted b (Starting i) ps d) = (if x = i then emitted b (Starting i) ps d else [])"
  "own x (emitted b (CompletedStep i) ps d) = (if x = i then emitted b (CompletedStep i) ps d else [])"
  "own x (emitted b (FailedStep i) ps d) = (if x = i then emitted b (FailedStep i) ps d else [])"
  "own x (emitted b Initializing ps d) = []"
  "own x (emitted b (StartingBatch m) ps d) = []"
  "own x (emitted b Deployed ps d) = []"
  by (auto simp: emitted_def)

lemma begin_task_own: "own x (begin_task b n) = (if x = node_id n then begin_task b n else [])"
  by (simp add: begin_task_def emitted_own)

lemma task_step_other: "x \<noteq> node_id n \<Longrightarrow> own x (snd (task_step ev b w n p)) = []"
  by (cases p)
     (auto simp: catch_block_def mark_completed_def emitted_own split: option.splits sum.splits)

lemma own_map_Enqueue [simp]: "own x (map Enqueue xs) = []"
  by (induction xs) auto

lemma perform_own: "task_effect e \<Longrightarrow> own x (trace (perform e s)) = own x (trace s) @ own x [e]"
  by (cases e) (simp_all add: unblock_eq)

lemma perform_all_own:
  "\<forall>e \<in> set es. task_effect e \<Longrightarrow> own x (trace (perform_all es s)) = own x (trace s) @ own x es"
proof (induction es arbitrary: s)
  case Nil
  then show ?case by simp
next
  case (Cons e es)
  then show ?case using perform_own[of e x s] by (simp del: perform.simps own_simps(2)) simp
qed

lemma advance_own:
  "own x (trace (advance ev k s)) = own x (trace s) @ own x (snd (segment ev k s))"
  unfolding advance_def
  using perform_all_own[of "snd (segment ev k s)" x] segment_effects[of _ ev k s]
  by simp


lemma own_subset: "set (own i es) \<subseteq> set es"
  by (auto simp: own_def)

lemma hist_dispatched: "hist ev b w n p es \<Longrightarrow> SetStatus (node_id n) Running \<in> set (own (node_id n) es)"
  by (induction rule: hist.induct) (auto simp: begin_task_def)

definition story :: "env \<Rightarrow> jobData \<Rightarrow> sys \<Rightarrow> string \<Rightarrow> pc \<Rightarrow> bool" where
  "story ev j s i p \<longleftrightarrow>
     (\<exists>n w es. map_of (entries (workGraph j)) i = Some n \<and> hist ev (jobBuildId j) w n p es \<and>
        own i (trace s) = own i es \<and> (in_flight p \<longrightarrow> w = wave s))"

definition traced :: "env \<Rightarrow> jobData \<Rightarrow> sys \<Rightarrow> bool" where
  "traced ev j s \<longleftrightarrow>
     distinct (map fst (promises s)) \<and>
     (\<forall>ip \<in> set (promises s). story ev j s (fst ip) (snd ip)) \<and>
     (\<forall>i. i \<notin> fst ` set (promises s) \<longrightarrow> own i (trace s) = [] \<or> story ev j s i Fulfilled)"

lemma story_dispatched: "story ev j s i p \<Longrightarrow> SetStatus i Running \<in> set (trace s)"
proof -
  assume "story ev j s i p"
  then obtain n w es where a: "map_of (entries (workGraph j)) i = Some n"
    "hist ev (jobBuildId j) w n p es" "own i (trace s) = own i es"
    by (auto simp: story_def)
  have "node_id n = i" using entries_node_id[OF map_of_SomeD[OF a(1)]] by simp
  then show ?thesis using hist_dispatched[OF a(2)] a(3) own_subset[of i "trace s"] by auto
qed

lemma story_cong:
  "own i (trace t) = own i (trace s) \<Longrightarrow> (in_flight p \<Longrightarrow> wave t = wave s) \<Longrightarrow>
   story ev j s i p \<Longrightarrow> story ev j t i p"
  unfolding story_def by metis

lemma traced_cong:
  assumes "traced ev j s" "promises t = promises s" "\<And>i. own i (trace t) = own i (trace s)"
    "wave t = wave s \<or> fulfilled (promises s)"
  shows "traced ev j t"
proof -
  have "story ev j t (fst ip) (snd ip)" if "ip \<in> set (promises s)" for ip
  proof -
    have "in_flight (snd ip) \<Longrightarrow> wave t = wave s"
      using assms(4) that by (auto simp: fulfilled_def list_all_iff)
    moreover have "story ev j s (fst ip) (snd ip)" using assms(1) that by (simp add: traced_def)
    ultimately show ?thesis using story_cong[OF assms(3)] by blast
  qed
  moreover have "own i (trace t) = [] \<or> story ev j t i Fulfilled" if "i \<notin> fst ` set (promises s)" for i
    using assms(1,3) that story_cong[OF assms(3), where p = Fulfilled and i = i and ev = ev and j = j]
    by (auto simp: traced_def)
  ultimately show ?thesis using assms(1,2) by (simp add: traced_def)
qed

lemma traced_Settle: "traced ev j s \<Longrightarrow> traced ev j (perform (Settle r) s)"
  by (erule traced_cong) simp_all

lemma traced_finish: "traced ev j s \<Longrightarrow> traced ev j (finish ev s)"
  by (erule traced_cong) (simp_all add: finish_cases emitted_own)

lemma traced_announced: "traced ev j s \<Longrightarrow> fulfilled (promises s) \<Longrightarrow> traced ev j (announced s)"
  by (erule traced_cong) (simp_all add: emitted_own)

lemma proper_lookup:
  assumes "proper j s" "i \<in> set (keys (workGraph j))"
  shows "\<exists>n m. map_of (entries (workGraph j)) i = Some n \<and> map_of (nodes s) i = Some m \<and>
           m\<lparr>status := Pending\<rparr> = n \<and> node_id n = i"
proof -
  have "i \<in> fst ` set (entries (workGraph j))" using assms(2) by (simp add: keys_def)
  then obtain n where n: "map_of (entries (workGraph j)) i = Some n"
    by (metis map_of_eq_None_iff not_Some_eq)
  have "map_of (unmarked (nodes s)) i = Some n" using assms(1) n by (simp add: proper_def)
  then obtain m where "map_of (nodes s) i = Some m" "m\<lparr>status := Pending\<rparr> = n"
    by (auto simp: unmarked_lookup)
  then show ?thesis using n entries_node_id[OF map_of_SomeD[OF n]] by auto
qed

lemma first_effects_own:
  assumes "\<forall>(k, n) \<in> set ns. node_id n = k" "set batch \<subseteq> fst ` set ns" "distinct batch"
  shows "own x (first_effects b ns batch)
         = (if x \<in> set batch then begin_task b (the (map_of ns x)) else [])"
  using assms(2,3)
proof (induction batch)
  case Nil
  then show ?case by simp
next
  case (Cons i batch)
  then obtain n where n: "map_of ns i = Some n" "node_id n = i"
    using lookup_own_key[OF assms(1), of i] by auto
  have "own x (first_effects b ns batch)
         = (if x \<in> set batch then begin_task b (the (map_of ns x)) else [])"
    using Cons by simp
  then show ?case using n Cons.prems(2) by (auto simp: begin_task_own)
qed

lemma traced_started:
  assumes "traced ev j s" "proper j s" "once s" "fulfilled (promises s)"
  shows "traced ev j (started s)"
proof -
  let ?g = "workGraph j"
  have b: "buildId s = jobBuildId j" and u: "unmarked (nodes s) = entries ?g"
    and q: "set (queue s) \<subseteq> set (keys ?g)"
    using assms(2) by (simp_all add: proper_def)
  have dq: "distinct (queue s)" and nd: "\<forall>x \<in> set (queue s). SetStatus x Running \<notin> set (trace s)"
    using assms(3) by (simp_all add: once_def)
  have sub: "set (queue s) \<subseteq> fst ` set (entries ?g)" using q by (simp add: keys_def)
  have nk: "\<forall>(k, n) \<in> set (entries ?g). node_id n = k"
    using entries_node_id[of _ _ ?g] by auto
  have tr: "own x (trace (started s)) = own x (trace s) @
              (if x \<in> set (queue s) then begin_task (jobBuildId j) (the (map_of (entries ?g) x)) else [])"
    for x
    by (simp add: started_promises(2) emitted_own b u first_effects_own[OF nk sub dq])
  have fresh: "own x (trace s) = []" if "x \<in> set (queue s)" for x
  proof -
    have "\<not> story ev j s x p" for p using story_dispatched nd that by blast
    then show ?thesis using assms(1) unfolding traced_def
      by (metis image_iff prod.collapse)
  qed
  have pr: "promises (started s) = map (\<lambda>i. (i, AwaitActive)) (queue s)"
  proof -
    have "first_promise (nodes s) i = AwaitActive" if h: "i \<in> set (queue s)" for i
    proof -
      obtain m where "map_of (nodes s) i = Some m"
        using proper_lookup[OF assms(2), of i] q h by auto
      then show ?thesis by (simp add: first_promise_def map_of_eq_Some_iff_key)
    qed
    then show ?thesis by (simp add: started_promises(1))
  qed
  have new: "story ev j (started s) i AwaitActive" if h: "i \<in> set (queue s)" for i
  proof -
    obtain n where n: "map_of (entries ?g) i = Some n" "node_id n = i"
      using proper_lookup[OF assms(2), of i] q h by auto
    have "own i (trace (started s)) = own i (begin_task (jobBuildId j) n)"
      using h n by (simp add: tr fresh begin_task_own)
    moreover have "hist ev (jobBuildId j) (wave (started s)) n AwaitActive (begin_task (jobBuildId j) n)"
      by (rule hist_begin)
    ultimately show ?thesis using n(1) unfolding story_def by blast
  qed
  have old: "own i (trace (started s)) = [] \<or> story ev j (started s) i Fulfilled"
    if "i \<notin> set (queue s)" for i
  proof -
    have o: "own i (trace (started s)) = own i (trace s)" using that by (simp add: tr)
    have keep: "story ev j (started s) i Fulfilled" if "story ev j s i Fulfilled"
      by (rule story_cong[OF o _ that]) simp
    show ?thesis
    proof (cases "i \<in> fst ` set (promises s)")
      case True
      then obtain p where p: "(i, p) \<in> set (promises s)" by auto
      then have "p = Fulfilled" using assms(4) by (auto simp: fulfilled_def list_all_iff)
      then have "story ev j s i Fulfilled" using assms(1) p by (auto simp: traced_def)
      then show ?thesis using keep by simp
    next
      case False
      then have "own i (trace s) = [] \<or> story ev j s i Fulfilled"
        using assms(1) by (simp add: traced_def)
      then show ?thesis using keep o by auto
    qed
  qed
  have ks: "fst ` set (map (\<lambda>i. (i, AwaitActive)) (queue s)) = set (queue s)"
    by (simp add: image_image)
  show ?thesis
    unfolding traced_def pr ks using dq new old by (auto simp: comp_def)
qed

lemma traced_next_wave:
  assumes "traced ev j s" "proper j s" "once s" "fulfilled (promises s)"
  shows "traced ev j (next_wave ev s)"
  using traced_finish[OF assms(1)] traced_Settle[OF traced_announced[OF assms(1,4)]]
    traced_started[OF assms] traced_Settle[OF traced_started[OF assms]]
  by (simp add: next_wave_cases del: perform.simps split: option.splits)

lemma traced_controller:
  assumes "traced ev j s" "proper j s" "once s"
  shows "traced ev j (controller ev s)"
  using assms(1) traced_Settle[OF assms(1)] traced_next_wave[OF assms]
  by (simp add: controller_def fulfilled_def del: perform.simps split: option.splits)


lemma update_distinct_key:
  assumes "distinct (map fst ps)" "k < length ps" "ip \<in> set (ps[k := (fst (ps ! k), p)])"
  shows "ip = (fst (ps ! k), p) \<or> (ip \<in> set ps \<and> fst ip \<noteq> fst (ps ! k))"
proof -
  obtain m where m: "m < length ps" "ip = (ps[k := (fst (ps ! k), p)]) ! m"
    using assms(3) by (metis in_set_conv_nth length_list_update)
  show ?thesis
  proof (cases "m = k")
    case True
    then show ?thesis using m assms(2) by simp
  next
    case False
    then have "fst (ps ! m) \<noteq> fst (ps ! k)"
      using assms(1,2) m(1) by (metis length_map nth_eq_iff_index_eq nth_map)
    then show ?thesis using m False by simp
  qed
qed

lemma segment_proper:
  assumes "proper j s" "k < length (promises s)"
  shows "\<exists>n. map_of (entries (workGraph j)) (fst (promises s ! k)) = Some n \<and>
             node_id n = fst (promises s ! k) \<and>
             segment ev k s = task_step ev (jobBuildId j) (wave s) n (snd (promises s ! k))"
proof -
  have "fst (promises s ! k) \<in> set (keys (workGraph j))"
    using assms by (metis image_subset_iff nth_mem proper_def)
  from proper_lookup[OF assms(1) this] obtain n m where
    nm: "map_of (entries (workGraph j)) (fst (promises s ! k)) = Some n"
        "map_of (nodes s) (fst (promises s ! k)) = Some m"
        "m\<lparr>status := Pending\<rparr> = n" "node_id n = fst (promises s ! k)"
    by blast
  have "task_step ev (buildId s) (wave s) m (snd (promises s ! k))
        = task_step ev (buildId s) (wave s) n (snd (promises s ! k))"
    using nm(3) task_step_status[where n = m and st = Pending] by metis
  then show ?thesis using nm assms(1) by (simp add: segment_def proper_def)
qed

lemma traced_advance:
  assumes "traced ev j s" "proper j s" "k < length (promises s)" "in_flight (snd (promises s ! k))"
  shows "traced ev j (advance ev k s)"
proof -
  let ?i = "fst (promises s ! k)" and ?p = "snd (promises s ! k)"
  obtain n where n: "map_of (entries (workGraph j)) ?i = Some n" "node_id n = ?i"
    "segment ev k s = task_step ev (jobBuildId j) (wave s) n ?p"
    using segment_proper[OF assms(2,3)] by blast
  let ?ts = "task_step ev (jobBuildId j) (wave s) n ?p"
  have d: "distinct (map fst (promises s))" using assms(1) by (simp add: traced_def)
  have pr: "promises (advance ev k s) = (promises s)[k := (?i, fst ?ts)]"
    by (simp add: advance_frame n(3))
  have tr: "own x (trace (advance ev k s)) = own x (trace s) @ own x (snd ?ts)" for x
    by (simp add: advance_own n(3))
  have other: "own x (trace (advance ev k s)) = own x (trace s)" if "x \<noteq> ?i" for x
    using that n(2) by (simp add: tr task_step_other)
  have mem: "promises s ! k \<in> set (promises s)" using assms(3) by simp
  have this_one: "story ev j (advance ev k s) ?i (fst ?ts)"
  proof -
    have "story ev j s ?i ?p" using assms(1) mem by (simp add: traced_def)
    then obtain n' w es where h: "map_of (entries (workGraph j)) ?i = Some n'"
      "hist ev (jobBuildId j) w n' ?p es" "own ?i (trace s) = own ?i es" "w = wave s"
      using assms(4) by (auto simp: story_def)
    have "hist ev (jobBuildId j) (wave s) n (fst ?ts) (es @ snd ?ts)"
      using h n(1) assms(4) hist_step[of ev "jobBuildId j" "wave s" n ?p es] by simp
    moreover have "own ?i (trace (advance ev k s)) = own ?i (es @ snd ?ts)"
      using h(3) by (simp add: tr)
    ultimately show ?thesis using n(1) unfolding story_def by (metis advance_frame2(3))
  qed
  have others: "story ev j (advance ev k s) (fst ip) (snd ip)"
    if "ip \<in> set (promises s)" "fst ip \<noteq> ?i" for ip
  proof -
    have "story ev j s (fst ip) (snd ip)" using assms(1) that(1) by (simp add: traced_def)
    then show ?thesis by (rule story_cong[OF other[OF that(2)], rotated]) simp
  qed
  have a: "story ev j (advance ev k s) (fst ip) (snd ip)" if "ip \<in> set (promises (advance ev k s))" for ip
    using update_distinct_key[OF d assms(3), of ip "fst ?ts"] that this_one others
    by (auto simp: pr)
  have ks: "fst ` set (promises (advance ev k s)) = fst ` set (promises s)"
  proof -
    have "map fst ((promises s)[k := (?i, fst ?ts)]) = map fst (promises s)"
      using assms(3) by (simp add: map_update list_update_same_conv)
    then show ?thesis by (metis pr set_map)
  qed
  have dd: "distinct (map fst (promises (advance ev k s)))"
  proof -
    have "map fst ((promises s)[k := (?i, fst ?ts)]) = map fst (promises s)"
      using assms(3) by (simp add: map_update list_update_same_conv)
    then show ?thesis using d by (simp only: pr)
  qed
  have c: "own x (trace (advance ev k s)) = [] \<or> story ev j (advance ev k s) x Fulfilled"
    if "x \<notin> fst ` set (promises s)" for x
  proof -
    have ne: "x \<noteq> ?i" using that mem by auto
    have "own x (trace s) = [] \<or> story ev j s x Fulfilled"
      using assms(1) that by (simp add: traced_def)
    then show ?thesis
      using other[OF ne] story_cong[OF other[OF ne], where p = Fulfilled and ev = ev and j = j]
      by auto
  qed
  show ?thesis unfolding traced_def ks using dd a c by blast
qed

lemma traced_ready: "traced ev j (ready g (greeted b))"
  by (simp add: traced_def emitted_own)

lemma reach_traced: "reach ev j s \<Longrightarrow> traced ev j s"
proof (induction rule: reach.induct)
  case reach_launch
  show ?case unfolding launch_def
    by (rule traced_next_wave[OF traced_ready proper_ready once_ready]) (simp add: fulfilled_def)
next
  case (reach_step s k)
  have "traced ev j (advance ev k s)"
    using traced_advance[OF reach_step.IH reach_proper[OF reach_step.hyps(1)] reach_step.hyps(2,3)] .
  then show ?case
    unfolding sys_step_def
    by (rule traced_controller[OF _ proper_advance[OF reach_proper[OF reach_step.hyps(1)] reach_step.hyps(2)]
                                   once_advance[OF reach_once[OF reach_step.hyps(1)]]])
qed

subsection \<open>What a history looks like\<close>

fun statuses :: "string \<Rightarrow> effect list \<Rightarrow> status list" where
  "statuses i [] = []"
| "statuses i (SetStatus x st # es) = (if x = i then st # statuses i es else statuses i es)"
| "statuses i (e # es) = statuses i es"

lemma statuses_append [simp]: "statuses i (es @ fs) = statuses i es @ statuses i fs"
  by (induction i es rule: statuses.induct) simp_all

lemma statuses_own [simp]: "statuses i (own i es) = statuses i es"
  by (induction i es rule: statuses.induct) simp_all

lemma statuses_emitted [simp]: "statuses i (emitted b st ps d) = []"
  by (simp add: emitted_def)

lemma statuses_mem: "st \<in> set (statuses i es) \<longleftrightarrow> SetStatus i st \<in> set es"
  by (induction i es rule: statuses.induct) auto

lemma statuses_count: "count_list (statuses i es) st = count_list es (SetStatus i st)"
  by (induction i es rule: statuses.induct) auto

fun working :: "pc \<Rightarrow> bool" where
  "working AwaitCompleted = False"
| "working (AwaitError m) = False"
| "working Fulfilled = False"
| "working (Rejected c) = False"
| "working p = True"

definition shaped :: "string \<Rightarrow> pc \<Rightarrow> effect list \<Rightarrow> bool" where
  "shaped i p es \<longleftrightarrow>
     (working p \<longrightarrow> statuses i es = [Running]) \<and>
     (p = AwaitCompleted \<or> p = Fulfilled \<longrightarrow> statuses i es = [Running, Completed]) \<and>
     ((\<exists>m. p = AwaitError m) \<longrightarrow>
        statuses i es = [Running, Failed] \<or> statuses i es = [Running, Completed, Failed]) \<and>
     ((\<exists>c. p = Rejected c) \<longrightarrow>
        statuses i es = [Running] \<or> statuses i es = [Running, Failed]
        \<or> statuses i es = [Running, Completed, Failed]) \<and>
     count_list es (Unblock i) = (if p = Fulfilled then 1 else 0)"

lemma count_list_emitted_Unblock [simp]: "count_list (emitted b st ps d) (Unblock i) = 0"
  by (simp add: emitted_def)

lemma hist_shaped: "hist ev b w n p es \<Longrightarrow> shaped (node_id n) p es"
proof (induction rule: hist.induct)
  case hist_begin
  then show ?case by (simp add: shaped_def begin_task_def)
next
  case (hist_step p es)
  then show ?case
    by (cases p)
       (auto simp: shaped_def catch_block_def mark_completed_def split: option.splits sum.splits)
qed


text \<open>The progress events of a node.\<close>

fun events :: "string \<Rightarrow> effect list \<Rightarrow> pstatus list" where
  "events i [] = []"
| "events i (Progress st ps d # es) =
     (if st = Starting i \<or> st = CompletedStep i \<or> st = FailedStep i
      then ps # events i es else events i es)"
| "events i (e # es) = events i es"

lemma events_append [simp]: "events i (es @ fs) = events i es @ events i fs"
  by (induction i es rule: events.induct) simp_all

lemma events_own [simp]: "events i (own i es) = events i es"
  by (induction i es rule: events.induct) simp_all

lemma events_silent: "b = [] \<Longrightarrow> events i (emitted b st ps d) = []"
  by (simp add: emitted_def)

definition voiced :: "string \<Rightarrow> pc \<Rightarrow> effect list \<Rightarrow> bool" where
  "voiced i p es \<longleftrightarrow>
     (working p \<longrightarrow> events i es = [PActive]) \<and>
     (p = AwaitCompleted \<or> p = Fulfilled \<longrightarrow> events i es = [PActive, PCompleted]) \<and>
     ((\<exists>m. p = AwaitError m) \<longrightarrow>
        events i es = [PActive, PError] \<or> events i es = [PActive, PCompleted, PError]) \<and>
     ((\<exists>c. p = Rejected c) \<longrightarrow>
        events i es = [PActive] \<or> events i es = [PActive, PError]
        \<or> events i es = [PActive, PCompleted, PError])"

lemma hist_voiced: "hist ev b w n p es \<Longrightarrow> b \<noteq> [] \<Longrightarrow> voiced (node_id n) p es"
proof (induction rule: hist.induct)
  case hist_begin
  then show ?case by (simp add: voiced_def begin_task_def emitted_def)
next
  case (hist_step p es)
  then show ?case
    by (cases p)
       (auto simp: voiced_def catch_block_def mark_completed_def emitted_def
             split: option.splits sum.splits)
qed

lemma hist_mute: "hist ev b w n p es \<Longrightarrow> b = [] \<Longrightarrow> events i es = []"
proof (induction rule: hist.induct)
  case hist_begin
  then show ?case by (simp add: begin_task_def emitted_def)
next
  case (hist_step p es)
  then show ?case
    by (cases p)
       (auto simp: catch_block_def mark_completed_def emitted_def split: option.splits sum.splits)
qed

text \<open>With every progress event acknowledged, a node has one story out of two.\<close>

definition acknowledging :: "env \<Rightarrow> bool" where
  "acknowledging ev \<longleftrightarrow> (\<forall>w st. publish ev w st = None)"

definition told :: "'a node_scheme \<Rightarrow> pc \<Rightarrow> effect list \<Rightarrow> bool" where
  "told n p es \<longleftrightarrow>
     (working p \<longrightarrow> events (node_id n) es = [PActive] \<and> statuses (node_id n) es = [Running]) \<and>
     (p = AwaitCompleted \<or> p = Fulfilled \<longrightarrow>
        events (node_id n) es = [PActive, PCompleted] \<and>
        statuses (node_id n) es = [Running, Completed]) \<and>
     ((\<exists>m. p = AwaitError m) \<longrightarrow>
        events (node_id n) es = [PActive, PError] \<and> statuses (node_id n) es = [Running, Failed]) \<and>
     (\<forall>c. p = Rejected c \<longrightarrow>
        events (node_id n) es = [PActive, PError] \<and> statuses (node_id n) es = [Running, Failed] \<and>
        (\<exists>m. c = TaskFailed (node_id n) (task n) m))"

lemma hist_told: "hist ev b w n p es \<Longrightarrow> b \<noteq> [] \<Longrightarrow> acknowledging ev \<Longrightarrow> told n p es"
proof (induction rule: hist.induct)
  case hist_begin
  then show ?case by (simp add: told_def begin_task_def emitted_def)
next
  case (hist_step p es)
  then show ?case
    by (cases p)
       (auto simp: told_def catch_block_def mark_completed_def emitted_def acked_def
                   acknowledging_def split: option.splits sum.splits)
qed

text \<open>Who is blamed for a rejection.\<close>

definition blamed :: "env \<Rightarrow> string \<Rightarrow> nat \<Rightarrow> 'a node_scheme \<Rightarrow> pc \<Rightarrow> effect list \<Rightarrow> bool" where
  "blamed ev b w n p es \<longleftrightarrow>
     (\<forall>c. p = Rejected c \<longrightarrow>
        (\<exists>m. c = TaskFailed (node_id n) (task n) m \<and> Failed \<in> set (statuses (node_id n) es) \<and>
              acked ev b w (FailedStep (node_id n)) = None)
        \<or> (\<exists>e. c = Thrown e \<and>
              (acked ev b w (Starting (node_id n)) = Some e
               \<or> acked ev b w (FailedStep (node_id n)) = Some e))) \<and>
     (\<forall>m. p = AwaitError m \<longrightarrow> Failed \<in> set (statuses (node_id n) es))"

lemma hist_blamed: "hist ev b w n p es \<Longrightarrow> blamed ev b w n p es"
proof (induction rule: hist.induct)
  case hist_begin
  then show ?case by (simp add: blamed_def)
next
  case (hist_step p es)
  then show ?case
    by (cases p)
       (auto simp: blamed_def catch_block_def mark_completed_def split: option.splits sum.splits)
qed


text \<open>What a generation node persists and delivers.\<close>

fun artifact :: "string \<Rightarrow> effect \<Rightarrow> bool" where
  "artifact i (Mkdir x f) = (x = i)"
| "artifact i (WriteFile x f c) = (x = i)"
| "artifact i (Upload x f c) = (x = i)"
| "artifact i (SetStatus x st) = (x = i \<and> st = Completed)"
| "artifact i e = False"




lemma artifacts_emitted [simp]: "filter (artifact i) (emitted b st ps d) = []"
  by (simp add: emitted_def)


lemma take_0_conv: "[] = take 0 xs"
  by simp









subsection \<open>Histories in reachable states\<close>

lemma concerns_mem_own: "e \<in> set es \<Longrightarrow> concerns i e \<Longrightarrow> e \<in> set (own i es)"
  by (simp add: own_def)

lemma reach_story:
  assumes "reach ev j s" "e \<in> set (trace s)" "concerns i e"
  shows "\<exists>p. story ev j s i p \<and> ((i, p) \<in> set (promises s) \<or> p = Fulfilled)"
proof (cases "i \<in> fst ` set (promises s)")
  case True
  then obtain p where "(i, p) \<in> set (promises s)" by auto
  then show ?thesis using reach_traced[OF assms(1)] by (force simp: traced_def)
next
  case False
  have "own i (trace s) \<noteq> []" using concerns_mem_own[OF assms(2,3)] by auto
  then show ?thesis using reach_traced[OF assms(1)] False by (auto simp: traced_def)
qed

lemma reach_story_or_nothing:
  assumes "reach ev j s"
  shows "own i (trace s) = [] \<or> (\<exists>p. story ev j s i p \<and> ((i, p) \<in> set (promises s) \<or> p = Fulfilled))"
proof (cases "own i (trace s) = []")
  case True
  then show ?thesis by simp
next
  case False
  then obtain e where "e \<in> set (trace s)" "concerns i e"
    by (metis filter_False own_def)
  then show ?thesis using reach_story[OF assms] by blast
qed



lemma statuses_map_Enqueue [simp]: "statuses i (map Enqueue xs) = []"
  by (induction xs) auto














text \<open>The counter counts the nodes whose dependents have been unblocked.\<close>

definition tallied :: "jobData \<Rightarrow> sys \<Rightarrow> bool" where
  "tallied j s \<longleftrightarrow>
     completedCount s = length (filter (\<lambda>i. Unblock i \<in> set (trace s)) (keys (workGraph j)))"

lemma tallied_cong:
  "tallied j s \<Longrightarrow> completedCount t = completedCount s \<Longrightarrow>
   (\<And>x. Unblock x \<in> set (trace t) \<longleftrightarrow> Unblock x \<in> set (trace s)) \<Longrightarrow> tallied j t"
  by (simp add: tallied_def)

lemma perform_count:
  "completedCount (perform e s) = completedCount s + count_list [e] CountCompleted"
  "Unblock x \<in> set (trace (perform e s)) \<longleftrightarrow> Unblock x \<in> set (trace s) \<or> e = Unblock x"
  by (cases e; auto simp: unblock_eq)+

lemma perform_all_count:
  "completedCount (perform_all es s) = completedCount s + count_list es CountCompleted"
  "Unblock x \<in> set (trace (perform_all es s)) \<longleftrightarrow> Unblock x \<in> set (trace s) \<or> Unblock x \<in> set es"
proof (induction es arbitrary: s)
  case Nil
  { case 1 show ?case by simp }
  { case 2 show ?case by simp }
next
  case (Cons e es)
  { case 1 show ?case using Cons(1)[of "perform e s"] perform_count(1)[of e s]
      by (simp del: perform.simps) }
  { case 2 show ?case using Cons(2)[of "perform e s"] perform_count(2)[of x e s]
      by (auto simp del: perform.simps) }
qed

lemma first_effects_no_Unblock: "Unblock x \<notin> set (first_effects b ns batch)"
proof (induction batch)
  case Nil
  then show ?case by simp
next
  case (Cons i batch)
  then show ?case by (cases "map_of ns i") (auto simp: begin_task_def emitted_def)
qed

lemma tallied_Settle: "tallied j s \<Longrightarrow> tallied j (perform (Settle r) s)"
  by (erule tallied_cong) simp_all

lemma tallied_finish: "tallied j s \<Longrightarrow> tallied j (finish ev s)"
  by (erule tallied_cong) (auto simp: finish_cases emitted_def)

lemma tallied_announced: "tallied j s \<Longrightarrow> tallied j (announced s)"
  by (erule tallied_cong) (auto simp: emitted_def)

lemma tallied_started: "tallied j s \<Longrightarrow> tallied j (started s)"
  by (erule tallied_cong) (auto simp: started_promises(2) emitted_def first_effects_no_Unblock)

lemma tallied_next_wave: "tallied j s \<Longrightarrow> tallied j (next_wave ev s)"
  by (simp add: next_wave_cases tallied_Settle tallied_finish tallied_announced tallied_started
        del: perform.simps split: option.splits)

lemma tallied_controller: "tallied j s \<Longrightarrow> tallied j (controller ev s)"
  by (simp add: controller_def tallied_Settle tallied_next_wave del: perform.simps split: option.splits)

lemma task_step_counts:
  "snd (task_step ev b w n p) = [CountCompleted, Unblock (node_id n)] \<and> p = AwaitCompleted
   \<or> (CountCompleted \<notin> set (snd (task_step ev b w n p))
       \<and> (\<forall>x. Unblock x \<notin> set (snd (task_step ev b w n p))))"
  by (cases p)
     (auto simp: catch_block_def mark_completed_def emitted_def split: option.splits sum.splits)

lemma filter_absent: "i \<notin> set xs \<Longrightarrow> filter (\<lambda>x. P x \<or> x = i) xs = filter P xs"
  by (induction xs) auto

lemma filter_length_insert:
  assumes "distinct xs" "i \<in> set xs" "\<not> P i"
  shows "length (filter (\<lambda>x. P x \<or> x = i) xs) = length (filter P xs) + 1"
  using assms by (induction xs) (auto simp: filter_absent)

lemma story_not_unblocked:
  assumes "story ev j s i p" "p \<noteq> Fulfilled"
  shows "Unblock i \<notin> set (trace s)"
proof
  assume u: "Unblock i \<in> set (trace s)"
  obtain n w es where a: "map_of (entries (workGraph j)) i = Some n"
    "hist ev (jobBuildId j) w n p es" "own i (trace s) = own i es"
    using assms(1) by (auto simp: story_def)
  have i: "node_id n = i" using entries_node_id[OF map_of_SomeD[OF a(1)]] by simp
  have "Unblock i \<in> set (own i es)" using concerns_mem_own[OF u, of i] a(3) by simp
  then have "Unblock i \<in> set es" using own_subset by blast
  then have "count_list es (Unblock i) \<noteq> 0" by (simp add: count_list_0_iff)
  then show False using hist_shaped[OF a(2)] assms(2) i by (simp add: shaped_def)
qed

lemma tallied_advance:
  assumes "tallied j s" "traced ev j s" "proper j s" "k < length (promises s)"
    "in_flight (snd (promises s ! k))"
  shows "tallied j (advance ev k s)"
proof -
  let ?i = "fst (promises s ! k)" and ?p = "snd (promises s ! k)"
  obtain n where n: "map_of (entries (workGraph j)) ?i = Some n" "node_id n = ?i"
    "segment ev k s = task_step ev (jobBuildId j) (wave s) n ?p"
    using segment_proper[OF assms(3,4)] by blast
  let ?es = "snd (task_step ev (jobBuildId j) (wave s) n ?p)"
  let ?s1 = "s\<lparr>promises := (promises s)[k := (?i, fst (segment ev k s))]\<rparr>"
  have adv: "advance ev k s = perform_all ?es ?s1" by (simp add: advance_def n(3))
  have cc: "completedCount (advance ev k s) = completedCount s + count_list ?es CountCompleted"
    and un: "\<And>x. Unblock x \<in> set (trace (advance ev k s)) \<longleftrightarrow>
                  Unblock x \<in> set (trace s) \<or> Unblock x \<in> set ?es"
    unfolding adv by (simp_all add: perform_all_count)
  consider (fulfil) "?es = [CountCompleted, Unblock ?i]" "?p = AwaitCompleted"
    | (other) "CountCompleted \<notin> set ?es" "\<forall>x. Unblock x \<notin> set ?es"
    using task_step_counts[of ev "jobBuildId j" "wave s" n ?p] n(2) by auto
  then show ?thesis
  proof cases
    case fulfil
    have "promises s ! k \<in> set (promises s)" using assms(4) by simp
    then have "story ev j s ?i ?p" using assms(2) by (simp add: traced_def)
    then have fresh: "Unblock ?i \<notin> set (trace s)"
      using story_not_unblocked fulfil(2) by fastforce
    have ik: "?i \<in> set (keys (workGraph j))"
      using n(1) by (metis keys_def map_of_eq_Some_iff_key set_map)
    have "length (filter (\<lambda>x. Unblock x \<in> set (trace s) \<or> x = ?i) (keys (workGraph j)))
          = length (filter (\<lambda>x. Unblock x \<in> set (trace s)) (keys (workGraph j))) + 1"
      using filter_length_insert[where P = "\<lambda>x. Unblock x \<in> set (trace s)", OF keys_distinct ik] fresh
      by simp
    then show ?thesis using assms(1) fulfil(1)
      by (simp add: tallied_def cc un)
  next
    case other
    show ?thesis
      by (rule tallied_cong[OF assms(1)]) (use other in \<open>simp_all add: cc un count_list_0\<close>)
  qed
qed

lemma tallied_ready: "tallied j (ready g (greeted b))"
  by (auto simp: tallied_def emitted_def filter_empty_conv)

lemma reach_tallied: "reach ev j s \<Longrightarrow> tallied j s"
proof (induction rule: reach.induct)
  case reach_launch
  then show ?case by (simp add: launch_def tallied_next_wave tallied_ready)
next
  case (reach_step s k)
  then show ?case
    using tallied_advance[OF _ reach_traced reach_proper]
    by (simp add: sys_step_def tallied_controller)
qed

text \<open>On success every node is unblocked.\<close>

lemma filter_length_all: "length (filter P xs) = length xs \<Longrightarrow> \<forall>x \<in> set xs. P x"
  by (metis filter_id_conv length_filter_less not_less_iff_gr_or_eq)

lemma proper_size: "proper j s \<Longrightarrow> length (nodes s) = length (keys (workGraph j))"
  by (metis keys_def length_map proper_def unmarked_keys)

lemma success_all_unblocked:
  assumes "reach ev j s" "result s = Some (Succeeded b u)" "i \<in> set (keys (workGraph j))"
  shows "Unblock i \<in> set (trace s)"
proof -
  have "completedCount s = length (nodes s)"
    using reach_waiting[OF assms(1)] assms(2) by (simp add: waiting_def)
  then have "length (filter (\<lambda>i. Unblock i \<in> set (trace s)) (keys (workGraph j)))
             = length (keys (workGraph j))"
    using reach_tallied[OF assms(1)] proper_size[OF reach_proper[OF assms(1)]]
    by (simp add: tallied_def)
  then show ?thesis using filter_length_all assms(3) by blast
qed


lemma final_story:
  assumes "reach ev j s" "\<forall>p \<in> set (promises s). \<not> in_flight (snd p)"
    "e \<in> set (trace s)" "concerns i e"
  shows "\<exists>n w es p. map_of (entries (workGraph j)) i = Some n \<and> node_id n = i \<and>
           hist ev (jobBuildId j) w n p es \<and> own i (trace s) = own i es \<and> \<not> in_flight p"
proof -
  obtain p where p: "story ev j s i p" "(i, p) \<in> set (promises s) \<or> p = Fulfilled"
    using reach_story[OF assms(1,3,4)] by blast
  have nf: "\<not> in_flight p" using p(2) assms(2) by auto
  obtain n w es where a: "map_of (entries (workGraph j)) i = Some n"
    "hist ev (jobBuildId j) w n p es" "own i (trace s) = own i es"
    using p(1) by (auto simp: story_def)
  have "node_id n = i" using entries_node_id[OF map_of_SomeD[OF a(1)]] by simp
  then show ?thesis using a nf by blast
qed


lemma pipeline_final:
  "\<forall>p \<in> set (promises (executeBuildPipeline ev sched j)). \<not> in_flight (snd p)"
  by (simp add: executeBuildPipeline_def exec_settled)











lemma events_aborted [simp]: "events i (trace (aborted b e)) = []"
  by (simp add: aborted_fields emitted_def)

lemma statuses_aborted [simp]: "statuses i (trace (aborted b e)) = []"
  by (simp add: aborted_fields emitted_def)

subsection \<open>Dangling references\<close>

text \<open>The graph without the \<open>dependsOn\<close> ids that name no node.\<close>

definition without_dangling :: "node list \<Rightarrow> node list" where
  "without_dangling g =
     map (\<lambda>n. n\<lparr>dependsOn := filter (\<lambda>d. d \<in> node_id ` set g) (dependsOn n)\<rparr>) g"







lemma ids_without_dangling [simp]: "map node_id (without_dangling g) = map node_id g"
  by (simp add: without_dangling_def comp_def)










lemma begin_task_deps [simp]: "begin_task b (n\<lparr>dependsOn := ds\<rparr>) = begin_task b n"
  by (simp add: begin_task_def)

lemma task_step_deps [simp]: "task_step ev b w (n\<lparr>dependsOn := ds\<rparr>) p = task_step ev b w n p"
  by (cases p) (simp_all add: catch_block_def mark_completed_def split: option.splits sum.splits)

















subsection \<open>The counters of the dependency index\<close>

text \<open>The dependencies a node still waits for: those that name a node whose dependents have
  not been unblocked yet.\<close>

definition blockers :: "node list \<Rightarrow> effect list \<Rightarrow> string list \<Rightarrow> string list" where
  "blockers g tr ds = filter (\<lambda>d. d \<in> set (keys g) \<and> Unblock d \<notin> set tr) ds"

definition counted :: "jobData \<Rightarrow> sys \<Rightarrow> bool" where
  "counted j s \<longleftrightarrow>
     (\<forall>x n. map_of (entries (workGraph j)) x = Some n \<longrightarrow>
        map_of (inDegree s) x = Some (int (length (blockers (workGraph j) (trace s) (dependsOn n)))))"

lemma lowered_value:
  "map_of (lowered ds deg) x = map_option (\<lambda>v. v - int (count_list ds x)) (map_of deg x)"
proof (induction ds arbitrary: deg)
  case Nil
  then show ?case by (simp add: option.map_ident)
next
  case (Cons d ds)
  show ?case
  proof (cases "map_of deg d")
    case None
    then show ?thesis using Cons[of deg] by (cases "d = x") simp_all
  next
    case (Some v)
    then show ?thesis using Cons[of "AList.update d (v - 1) deg"]
      by (cases "d = x") (simp_all add: update_conv')
  qed
qed

lemma filter_count_split:
  "P i \<Longrightarrow> length (filter (\<lambda>d. P d \<and> d \<noteq> i) ds) + count_list ds i = length (filter P ds)"
  by (induction ds) auto

lemma counted_cong:
  "counted j s \<Longrightarrow> inDegree t = inDegree s \<Longrightarrow>
   (\<And>x. Unblock x \<in> set (trace t) \<longleftrightarrow> Unblock x \<in> set (trace s)) \<Longrightarrow> counted j t"
  by (simp add: counted_def blockers_def)

lemma counted_Unblock:
  assumes "counted j s" "proper j s" "i \<in> set (keys (workGraph j))" "Unblock i \<notin> set (trace s)"
  shows "counted j (perform (Unblock i) s)"
  unfolding counted_def
proof (intro allI impI)
  fix x n assume n: "map_of (entries (workGraph j)) x = Some n"
  let ?g = "workGraph j"
  have adj: "adjacent s i = dependents (entries ?g) i"
    using assms(2,3) by (simp add: adjacent_def proper_def index_adj)
  have c: "count_list (dependents (entries ?g) i) x = count_list (dependsOn n) i"
    using dependents_count[of "entries ?g" i x] keys_distinct[of ?g] n by (simp add: keys_def)
  have v: "map_of (inDegree s) x = Some (int (length (blockers ?g (trace s) (dependsOn n))))"
    using assms(1) n by (simp add: counted_def)
  have tr: "Unblock d \<notin> set (trace (perform (Unblock i) s)) \<longleftrightarrow> Unblock d \<notin> set (trace s) \<and> d \<noteq> i" for d
    by (auto simp: perform_Unblock simp del: perform.simps)
  have "length (blockers ?g (trace (perform (Unblock i) s)) (dependsOn n)) + count_list (dependsOn n) i
        = length (blockers ?g (trace s) (dependsOn n))"
    using filter_count_split[where P = "\<lambda>d. d \<in> set (keys ?g) \<and> Unblock d \<notin> set (trace s)"
        and i = i and ds = "dependsOn n"] assms(3,4)
    by (simp add: blockers_def tr conj_assoc del: perform.simps)
  then show "map_of (inDegree (perform (Unblock i) s)) x
        = Some (int (length (blockers ?g (trace (perform (Unblock i) s)) (dependsOn n))))"
    using v by (simp add: perform_Unblock lowered_value adj c del: perform.simps)
qed

lemma traced_story:
  assumes "traced ev j s" "e \<in> set (trace s)" "concerns i e"
  shows "\<exists>p. story ev j s i p \<and> ((i, p) \<in> set (promises s) \<or> p = Fulfilled)"
proof (cases "i \<in> fst ` set (promises s)")
  case True
  then obtain p where "(i, p) \<in> set (promises s)" by auto
  then show ?thesis using assms(1) by (force simp: traced_def)
next
  case False
  have "own i (trace s) \<noteq> []" using concerns_mem_own[OF assms(2,3)] by auto
  then show ?thesis using assms(1) False by (auto simp: traced_def)
qed

lemma counted_advance:
  assumes "counted j s" "traced ev j s" "proper j s" "k < length (promises s)"
    "in_flight (snd (promises s ! k))"
  shows "counted j (advance ev k s)"
proof -
  let ?i = "fst (promises s ! k)" and ?p = "snd (promises s ! k)"
  obtain n where n: "map_of (entries (workGraph j)) ?i = Some n" "node_id n = ?i"
    "segment ev k s = task_step ev (jobBuildId j) (wave s) n ?p"
    using segment_proper[OF assms(3,4)] by blast
  let ?es = "snd (task_step ev (jobBuildId j) (wave s) n ?p)"
  let ?s1 = "s\<lparr>promises := (promises s)[k := (?i, fst (segment ev k s))]\<rparr>"
  have adv: "advance ev k s = perform_all ?es ?s1" by (simp add: advance_def n(3))
  have c1: "counted j ?s1" using assms(1) by (simp add: counted_def)
  have p1: "proper j ?s1" using proper_advance[OF assms(3,4), of ev] assms(3)
    by (simp add: proper_def advance_frame)
  consider (fulfil) "?es = [CountCompleted, Unblock ?i]" "?p = AwaitCompleted"
    | (other) "CountCompleted \<notin> set ?es" "\<forall>x. Unblock x \<notin> set ?es"
    using task_step_counts[of ev "jobBuildId j" "wave s" n ?p] n(2) by auto
  then show ?thesis
  proof cases
    case fulfil
    have "promises s ! k \<in> set (promises s)" using assms(4) by simp
    then have "story ev j s ?i ?p" using assms(2) by (simp add: traced_def)
    then have fresh: "Unblock ?i \<notin> set (trace s)"
      using story_not_unblocked fulfil(2) by fastforce
    have ik: "?i \<in> set (keys (workGraph j))"
      using n(1) by (metis keys_def map_of_eq_Some_iff_key set_map)
    let ?s2 = "perform CountCompleted ?s1"
    have c2: "counted j ?s2" by (rule counted_cong[OF c1]) auto
    have p2: "proper j ?s2" using p1 by (simp add: proper_def)
    have f2: "Unblock ?i \<notin> set (trace ?s2)" using fresh by simp
    have "counted j (perform (Unblock ?i) ?s2)"
      by (rule counted_Unblock[OF c2 p2 ik f2])
    then show ?thesis unfolding adv fulfil(1) by (simp del: perform.simps)
  next
    case other
    have e: "\<forall>e \<in> set ?es. task_effect e" by (simp add: task_step_effects)
    have "inDegree (perform_all es t) = inDegree t" if "\<forall>x. Unblock x \<notin> set es" "\<forall>e \<in> set es. task_effect e" for es t
      using that
    proof (induction es arbitrary: t)
      case Nil
      then show ?case by simp
    next
      case (Cons a es)
      have "inDegree (perform a t) = inDegree t" using Cons.prems by (cases a) auto
      then show ?case using Cons by simp
    qed
    then have i: "inDegree (advance ev k s) = inDegree s" using other(2) e by (simp add: adv)
    show ?thesis
      by (rule counted_cong[OF assms(1) i]) (use other in \<open>simp add: adv perform_all_count\<close>)
  qed
qed

lemma counted_Settle: "counted j s \<Longrightarrow> counted j (perform (Settle r) s)"
  by (erule counted_cong) simp_all

lemma counted_finish: "counted j s \<Longrightarrow> counted j (finish ev s)"
  by (erule counted_cong) (auto simp: finish_cases emitted_def)

lemma counted_announced: "counted j s \<Longrightarrow> counted j (announced s)"
  by (erule counted_cong) (auto simp: emitted_def)

lemma counted_started: "counted j s \<Longrightarrow> counted j (started s)"
  by (erule counted_cong) (auto simp: started_promises(2) emitted_def first_effects_no_Unblock)

lemma counted_next_wave: "counted j s \<Longrightarrow> counted j (next_wave ev s)"
  by (simp add: next_wave_cases counted_Settle counted_finish counted_announced counted_started
        del: perform.simps split: option.splits)

lemma counted_controller: "counted j s \<Longrightarrow> counted j (controller ev s)"
  by (simp add: controller_def counted_Settle counted_next_wave del: perform.simps split: option.splits)

lemma counted_ready: "counted j (ready (workGraph j) (greeted (jobBuildId j)))"
  using index_in_degree[of "workGraph j"]
  by (auto simp: counted_def blockers_def emitted_def intro!: arg_cong[where f = length] filter_cong)

lemma reach_counted: "reach ev j s \<Longrightarrow> counted j s"
proof (induction rule: reach.induct)
  case reach_launch
  then show ?case by (simp add: launch_def counted_next_wave counted_ready)
next
  case (reach_step s k)
  then show ?case
    using counted_advance[OF _ reach_traced reach_proper]
    by (simp add: sys_step_def counted_controller)
qed

subsection \<open>The order of dispatches\<close>

text \<open>The dependencies of a node that name a node have all been dispatched and completed
  within a trace.\<close>

definition deps_done :: "node list \<Rightarrow> effect list \<Rightarrow> string \<Rightarrow> bool" where
  "deps_done g tr x =
     (case map_of (entries g) x of
        None \<Rightarrow> True
      | Some n \<Rightarrow>
          list_all (\<lambda>d. d \<in> set (keys g) \<longrightarrow>
                          SetStatus d Running \<in> set tr \<and> SetStatus d Completed \<in> set tr)
            (dependsOn n))"

fun is_Settle :: "effect \<Rightarrow> bool" where
  "is_Settle (Settle r) = True"
| "is_Settle e = False"

text \<open>Every dispatch in a trace comes after what \<open>G\<close> asks of the trace before it.\<close>

definition dispatches_after :: "(effect list \<Rightarrow> string \<Rightarrow> bool) \<Rightarrow> effect list \<Rightarrow> bool" where
  "dispatches_after G tr \<longleftrightarrow>
     (\<forall>tr1 tr2 x. tr = tr1 @ SetStatus x Running # tr2 \<longrightarrow> G tr1 x)"

lemma dispatches_after_append:
  assumes "dispatches_after G tr"
    "\<And>es1 es2 x. es = es1 @ SetStatus x Running # es2 \<Longrightarrow> G (tr @ es1) x"
  shows "dispatches_after G (tr @ es)"
  unfolding dispatches_after_def
proof (intro allI impI)
  fix tr1 tr2 x assume e: "tr @ es = tr1 @ SetStatus x Running # tr2"
  then consider (l) us where "tr = tr1 @ us" "us @ es = SetStatus x Running # tr2"
    | (r) us where "tr @ us = tr1" "es = us @ SetStatus x Running # tr2"
    by (auto simp: append_eq_append_conv2)
  then show "G tr1 x"
  proof cases
    case l
    show ?thesis
    proof (cases us)
      case Nil
      then show ?thesis using l assms(2)[of "[]" x tr2] by simp
    next
      case (Cons u us')
      then show ?thesis using l assms(1) by (auto simp: dispatches_after_def)
    qed
  next
    case r
    then show ?thesis using assms(2)[of us x tr2] by auto
  qed
qed

lemma dispatches_after_quiet:
  "dispatches_after G tr \<Longrightarrow> \<forall>x. SetStatus x Running \<notin> set es \<Longrightarrow> dispatches_after G (tr @ es)"
  by (rule dispatches_after_append) auto

definition sequenced :: "jobData \<Rightarrow> sys \<Rightarrow> bool" where
  "sequenced j s \<longleftrightarrow>
     dispatches_after (\<lambda>tr x. deps_done (workGraph j) tr x \<and> \<not> list_ex is_Settle tr) (trace s) \<and>
     (result s = None \<longrightarrow> \<not> list_ex is_Settle (trace s))"

lemma perform_trace:
  "\<exists>es. trace (perform e s) = trace s @ es \<and>
        (\<forall>x. SetStatus x Running \<in> set es \<longrightarrow> e = SetStatus x Running) \<and>
        (list_ex is_Settle es \<longrightarrow> is_Settle e)"
  by (cases e) (auto simp: unblock_eq list_ex_iff)

lemma perform_all_trace:
  "\<exists>es'. trace (perform_all es s) = trace s @ es' \<and>
        (\<forall>x. SetStatus x Running \<in> set es' \<longrightarrow> SetStatus x Running \<in> set es) \<and>
        (list_ex is_Settle es' \<longrightarrow> list_ex is_Settle es)"
proof (induction es arbitrary: s)
  case Nil
  then show ?case by simp
next
  case (Cons e es)
  obtain a where a: "trace (perform e s) = trace s @ a"
    "\<forall>x. SetStatus x Running \<in> set a \<longrightarrow> e = SetStatus x Running"
    "list_ex is_Settle a \<longrightarrow> is_Settle e"
    using perform_trace[of e s] by blast
  obtain b where b: "trace (perform_all es (perform e s)) = trace (perform e s) @ b"
    "\<forall>x. SetStatus x Running \<in> set b \<longrightarrow> SetStatus x Running \<in> set es"
    "list_ex is_Settle b \<longrightarrow> list_ex is_Settle es"
    using Cons[of "perform e s"] by blast
  show ?case
    by (rule exI[of _ "a @ b"]) (use a b in \<open>auto simp del: perform.simps\<close>)
qed

lemma quiet_not_Settle: "quiet e \<Longrightarrow> \<not> is_Settle e"
  by (cases e) auto

lemma sequenced_advance:
  assumes "sequenced j s"
  shows "sequenced j (advance ev k s)"
proof -
  let ?s1 = "s\<lparr>promises := (promises s)[k := (fst (promises s ! k), fst (segment ev k s))]\<rparr>"
  obtain es where es: "trace (advance ev k s) = trace s @ es"
    "\<forall>x. SetStatus x Running \<in> set es \<longrightarrow> SetStatus x Running \<in> set (snd (segment ev k s))"
    "list_ex is_Settle es \<longrightarrow> list_ex is_Settle (snd (segment ev k s))"
    using perform_all_trace[of "snd (segment ev k s)" ?s1] by (auto simp: advance_def)
  have q: "\<forall>x. SetStatus x Running \<notin> set es" using es(2) segment_quiet[of _ ev k s] by fastforce
  have n: "\<not> list_ex is_Settle es"
    using es(3) segment_quiet[of _ ev k s] quiet_not_Settle by (auto simp: list_ex_iff)
  show ?thesis
    using assms dispatches_after_quiet[OF _ q] n
    by (auto simp: sequenced_def es(1) advance_frame)
qed

lemma sequenced_Settle: "sequenced j s \<Longrightarrow> sequenced j (perform (Settle r) s)"
  using dispatches_after_quiet[of _ "trace s" "[Settle r]"] by (simp add: sequenced_def)

lemma sequenced_emitted: "sequenced j s \<Longrightarrow> sequenced j (perform_all (emitted b st ps d) s)"
  using dispatches_after_quiet[of _ "trace s" "emitted b st ps d"]
  by (auto simp: sequenced_def emitted_def)

lemma sequenced_finish: "sequenced j s \<Longrightarrow> sequenced j (finish ev s)"
  by (simp add: finish_cases sequenced_Settle sequenced_emitted del: perform.simps)

lemma sequenced_announced: "sequenced j s \<Longrightarrow> sequenced j (announced s)"
  using dispatches_after_quiet[of _ "trace s" "emitted (buildId s) (StartingBatch (length (queue s))) PActive []"]
  by (auto simp: sequenced_def emitted_def)

lemma deps_done_mono: "deps_done g tr x \<Longrightarrow> deps_done g (tr @ es) x"
  by (auto simp: deps_done_def list_all_iff split: option.splits)

lemma unblocked_completed:
  assumes "traced ev j s" "Unblock d \<in> set (trace s)"
  shows "SetStatus d Running \<in> set (trace s) \<and> SetStatus d Completed \<in> set (trace s)"
proof -
  obtain p where p: "story ev j s d p" using traced_story[OF assms, of d] by auto
  then have pf: "p = Fulfilled" using story_not_unblocked assms(2) by blast
  obtain n w es where a: "map_of (entries (workGraph j)) d = Some n"
    "hist ev (jobBuildId j) w n p es" "own d (trace s) = own d es"
    using p by (auto simp: story_def)
  have "node_id n = d" using entries_node_id[OF map_of_SomeD[OF a(1)]] by simp
  then have "statuses d es = [Running, Completed]"
    using hist_shaped[OF a(2)] pf by (simp add: shaped_def)
  then have "statuses d (trace s) = [Running, Completed]"
    using a(3) by (metis statuses_own)
  then show ?thesis
    using statuses_mem[of Running d "trace s"] statuses_mem[of Completed d "trace s"] by simp
qed

lemma queued_deps_done:
  assumes "traced ev j s" "proper j s" "once s" "counted j s" "x \<in> set (queue s)"
  shows "deps_done (workGraph j) (trace s) x"
proof (cases "map_of (entries (workGraph j)) x")
  case None
  then show ?thesis by (simp add: deps_done_def)
next
  case (Some n)
  let ?g = "workGraph j"
  have v: "map_of (inDegree s) x = Some (int (length (blockers ?g (trace s) (dependsOn n))))"
    using assms(4) Some by (simp add: counted_def)
  have "\<not> 0 < int (length (blockers ?g (trace s) (dependsOn n)))"
    using assms(3,5) v unfolding once_def by blast
  then have "blockers ?g (trace s) (dependsOn n) = []" by simp
  then have "\<forall>d \<in> set (dependsOn n). d \<in> set (keys ?g) \<longrightarrow> Unblock d \<in> set (trace s)"
    by (auto simp: blockers_def filter_empty_conv)
  then show ?thesis using Some unblocked_completed[OF assms(1)]
    by (auto simp: deps_done_def list_all_iff)
qed

lemma first_effects_Running:
  "SetStatus x Running \<in> set (first_effects b ns batch) \<Longrightarrow> \<forall>(k, n) \<in> set ns. node_id n = k \<Longrightarrow>
   x \<in> set batch"
proof (induction batch)
  case Nil
  then show ?case by simp
next
  case (Cons i batch)
  show ?case
  proof (cases "map_of ns i")
    case None
    then show ?thesis using Cons by simp
  next
    case (Some n)
    then have "node_id n = i" using Cons.prems(2) map_of_SomeD[OF Some] by auto
    then show ?thesis using Cons Some by (auto simp: begin_task_def emitted_def split: if_splits)
  qed
qed

lemma first_effects_no_Settle: "\<not> list_ex is_Settle (first_effects b ns batch)"
proof (induction batch)
  case Nil
  then show ?case by simp
next
  case (Cons i batch)
  then show ?case by (cases "map_of ns i") (auto simp: begin_task_def emitted_def)
qed

lemma sequenced_started:
  assumes "sequenced j s" "traced ev j s" "proper j s" "once s" "counted j s" "result s = None"
  shows "sequenced j (started s)"
proof -
  let ?em = "emitted (buildId s) (StartingBatch (length (queue s))) PActive []"
  let ?fe = "first_effects (buildId s) (unmarked (nodes s)) (queue s)"
  have tr: "trace (started s) = trace s @ (?em @ ?fe)" by (simp add: started_promises(2))
  have ns: "\<not> list_ex is_Settle (trace s)" using assms(1,6) by (simp add: sequenced_def)
  have ne: "\<not> list_ex is_Settle (?em @ ?fe)"
    using first_effects_no_Settle[of "buildId s" "unmarked (nodes s)" "queue s"]
    by (simp add: emitted_def)
  have g: "deps_done (workGraph j) (trace s @ es1) x \<and> \<not> list_ex is_Settle (trace s @ es1)"
    if h: "?em @ ?fe = es1 @ SetStatus x Running # es2" for es1 es2 x
  proof -
    have "SetStatus x Running \<in> set (?em @ ?fe)" using h by simp
    then have "SetStatus x Running \<in> set ?fe" by (auto simp: emitted_def split: if_splits)
    then have "x \<in> set (queue s)"
      using first_effects_Running proper_nodes[OF assms(3)] by blast
    then have "deps_done (workGraph j) (trace s) x"
      using queued_deps_done[OF assms(2,3,4,5)] by blast
    moreover have "\<not> list_ex is_Settle es1" using ne h by (auto simp: list_ex_iff)
    ultimately show ?thesis using ns deps_done_mono by auto
  qed
  have "dispatches_after (\<lambda>tr x. deps_done (workGraph j) tr x \<and> \<not> list_ex is_Settle tr)
          (trace s @ (?em @ ?fe))"
    by (rule dispatches_after_append) (use assms(1) g in \<open>auto simp: sequenced_def\<close>)
  then show ?thesis using ns ne assms(6) by (simp add: sequenced_def tr)
qed

lemma sequenced_next_wave:
  assumes "sequenced j s" "traced ev j s" "proper j s" "once s" "counted j s" "result s = None"
  shows "sequenced j (next_wave ev s)"
  using sequenced_finish[OF assms(1)] sequenced_Settle[OF sequenced_announced[OF assms(1)]]
    sequenced_started[OF assms] sequenced_Settle[OF sequenced_started[OF assms]]
  by (simp add: next_wave_cases del: perform.simps split: option.splits)

lemma sequenced_controller:
  assumes "sequenced j s" "traced ev j s" "proper j s" "once s" "counted j s"
  shows "sequenced j (controller ev s)"
proof (cases "result s")
  case None
  then show ?thesis
    using assms(1) sequenced_Settle[OF assms(1)] sequenced_next_wave[OF assms None]
    by (simp add: controller_def del: perform.simps split: option.splits)
next
  case (Some r)
  then show ?thesis using assms(1) by (simp add: controller_def)
qed

lemma sequenced_ready: "sequenced j (ready g (greeted b))"
  by (auto simp: sequenced_def dispatches_after_def emitted_def list_ex_iff append_eq_append_conv2
        append_eq_Cons_conv Cons_eq_append_conv map_eq_append_conv split: if_splits)

lemma reach_sequenced: "reach ev j s \<Longrightarrow> sequenced j s"
proof (induction rule: reach.induct)
  case reach_launch
  show ?case unfolding launch_def
    by (rule sequenced_next_wave[OF sequenced_ready traced_ready proper_ready once_ready counted_ready])
       simp
next
  case (reach_step s k)
  note r = reach_step.hyps(1)
  show ?case unfolding sys_step_def
    by (rule sequenced_controller[OF sequenced_advance[OF reach_step.IH]
          traced_advance[OF reach_traced[OF r] reach_proper[OF r] reach_step.hyps(2,3)]
          proper_advance[OF reach_proper[OF r] reach_step.hyps(2)]
          once_advance[OF reach_once[OF r]]
          counted_advance[OF reach_counted[OF r] reach_traced[OF r] reach_proper[OF r] reach_step.hyps(2,3)]])
qed

subsection \<open>Where a failure comes from\<close>

text \<open>The error the pipeline throws is the rejection of a promise of the wave, or it is
  thrown by the controller itself between two waves: the count-mismatch error, or the
  rejection of a progress publish of its own.\<close>

definition own_failure :: "env \<Rightarrow> sys \<Rightarrow> cause \<Rightarrow> bool" where
  "own_failure ev s c \<longleftrightarrow>
     c = Incomplete \<or>
     (\<exists>e w st. c = Thrown e \<and> acked ev (buildId s) w st = Some e \<and>
               (st = Deployed \<or> (\<exists>m. st = StartingBatch m)))"

definition caused :: "env \<Rightarrow> sys \<Rightarrow> bool" where
  "caused ev s \<longleftrightarrow>
     (\<forall>c. result s = Some (FailedWith c) \<longrightarrow>
        (\<exists>i. (i, Rejected c) \<in> set (promises s)) \<or>
        (fulfilled (promises s) \<and> own_failure ev s c))"

lemma first_rejected_Some: "first_rejected ps = Some c \<Longrightarrow> \<exists>i. (i, Rejected c) \<in> set ps"
proof (induction ps)
  case Nil
  then show ?case by simp
next
  case (Cons p ps)
  then show ?case by (cases p; cases "snd p") (auto split: pc.splits)
qed

lemma settled_kept:
  assumes "(i, q) \<in> set ps" "\<not> in_flight q" "in_flight (snd (ps ! k))"
  shows "(i, q) \<in> set (ps[k := r])"
proof -
  obtain m where m: "m < length ps" "ps ! m = (i, q)" using assms(1) by (auto simp: in_set_conv_nth)
  then have "m \<noteq> k" using assms(2,3) by auto
  then have "(ps[k := r]) ! m = (i, q)" using m by simp
  then show ?thesis using m(1) by (metis length_list_update nth_mem)
qed

lemma caused_advance:
  assumes "caused ev s" "k < length (promises s)" "in_flight (snd (promises s ! k))"
  shows "caused ev (advance ev k s)"
proof -
  have nf: "\<not> fulfilled (promises s)"
    using assms(2,3) by (auto simp: fulfilled_def list_all_length)
  have "\<exists>i. (i, Rejected c) \<in> set (promises (advance ev k s))"
    if h: "result s = Some (FailedWith c)" for c
  proof -
    obtain i where "(i, Rejected c) \<in> set (promises s)"
      using assms(1) h nf by (auto simp: caused_def)
    then show ?thesis using settled_kept[OF _ _ assms(3)] by (force simp: advance_frame)
  qed
  then show ?thesis by (simp add: caused_def advance_frame)
qed

lemma caused_next_wave:
  assumes "result s = None" "fulfilled (promises s)"
  shows "caused ev (next_wave ev s)"
proof (cases "queue s = []")
  case True
  then show ?thesis using assms
    by (auto simp: next_wave_cases finish_cases caused_def own_failure_def split: option.splits)
next
  case False
  show ?thesis
  proof (cases "acked ev (buildId s) (wave s + 1) (StartingBatch (length (queue s)))")
    case (Some e)
    then show ?thesis using False assms
      by (auto simp: next_wave_cases caused_def own_failure_def)
  next
    case None
    then show ?thesis using False assms first_rejected_Some[of "promises (started s)"]
      by (auto simp: next_wave_cases caused_def split: option.splits)
  qed
qed

lemma caused_controller: "caused ev s \<Longrightarrow> caused ev (controller ev s)"
proof (cases "result s")
  case (Some r)
  assume "caused ev s"
  then show ?thesis using Some by (simp add: controller_def)
next
  case None
  show ?thesis
  proof (cases "first_rejected (promises s)")
    case (Some c)
    then show ?thesis using None first_rejected_Some[OF Some]
      by (auto simp: controller_def caused_def)
  next
    case fr: None
    show ?thesis
    proof (cases "fulfilled (promises s)")
      case True
      then show ?thesis using None fr caused_next_wave[OF None True, of ev]
        by (simp add: controller_def fulfilled_def)
    next
      case False
      then show ?thesis using None fr by (simp add: controller_def fulfilled_def caused_def)
    qed
  qed
qed

lemma reach_caused: "reach ev j s \<Longrightarrow> caused ev s"
proof (induction rule: reach.induct)
  case reach_launch
  show ?case unfolding launch_def by (rule caused_next_wave) (simp_all add: fulfilled_def)
next
  case (reach_step s k)
  then show ?case by (simp add: sys_step_def caused_controller caused_advance)
qed

lemma rejected_story:
  assumes "traced ev j s" "(i, Rejected c) \<in> set (promises s)"
  shows "\<exists>n w es. map_of (entries (workGraph j)) i = Some n \<and> node_id n = i \<and>
           hist ev (jobBuildId j) w n (Rejected c) es \<and> own i (trace s) = own i es"
proof -
  have "story ev j s i (Rejected c)" using assms by (force simp: traced_def)
  then obtain n w es where a: "map_of (entries (workGraph j)) i = Some n"
    "hist ev (jobBuildId j) w n (Rejected c) es" "own i (trace s) = own i es"
    by (auto simp: story_def)
  have "node_id n = i" using entries_node_id[OF map_of_SomeD[OF a(1)]] by simp
  then show ?thesis using a by blast
qed

subsection \<open>Cycles\<close>

text \<open>The dependency relation between the nodes of the map: \<open>(d, x)\<close> when \<open>x\<close> lists \<open>d\<close>
  in its \<open>dependsOn\<close> and \<open>d\<close> names a node.\<close>

definition edges :: "node list \<Rightarrow> (string \<times> string) list" where
  "edges g =
     concat (map (\<lambda>kn. map (\<lambda>d. (d, fst kn)) (filter (\<lambda>d. d \<in> set (keys g)) (dependsOn (snd kn))))
               (entries g))"

lemma edges_iff:
  "(d, x) \<in> set (edges g) \<longleftrightarrow>
   (\<exists>n. map_of (entries g) x = Some n \<and> d \<in> set (dependsOn n) \<and> d \<in> set (keys g))"
proof -
  have "distinct (map fst (entries g))" using keys_distinct[of g] by (simp add: keys_def)
  then have "map_of (entries g) x = Some n \<longleftrightarrow> (x, n) \<in> set (entries g)" for n
    by simp
  then show ?thesis by (force simp: edges_def)
qed

definition first_at :: "effect list \<Rightarrow> effect \<Rightarrow> nat" where
  "first_at tr e = length (takeWhile (\<lambda>a. a \<noteq> e) tr)"

lemma split_first:
  "e \<in> set tr \<Longrightarrow> tr = takeWhile (\<lambda>a. a \<noteq> e) tr @ e # tl (dropWhile (\<lambda>a. a \<noteq> e) tr)"
proof -
  assume "e \<in> set tr"
  then have ne: "dropWhile (\<lambda>a. a \<noteq> e) tr \<noteq> []" by (auto simp: dropWhile_eq_Nil_conv)
  then have "hd (dropWhile (\<lambda>a. a \<noteq> e) tr) = e" using hd_dropWhile[OF ne] by simp
  then have "dropWhile (\<lambda>a. a \<noteq> e) tr = e # tl (dropWhile (\<lambda>a. a \<noteq> e) tr)"
    using ne by (metis list.collapse)
  then show ?thesis by (metis takeWhile_dropWhile_id)
qed

lemma first_at_less:
  "e \<in> set (takeWhile (\<lambda>a. a \<noteq> e') tr) \<Longrightarrow> first_at tr e < first_at tr e'"
  by (induction tr) (auto simp: first_at_def split: if_splits)

lemma edge_order:
  assumes "sequenced j s" "(d, x) \<in> set (edges (workGraph j))" "SetStatus x Running \<in> set (trace s)"
  shows "SetStatus d Running \<in> set (trace s) \<and>
         first_at (trace s) (SetStatus d Running) < first_at (trace s) (SetStatus x Running)"
proof -
  let ?tw = "takeWhile (\<lambda>a. a \<noteq> SetStatus x Running) (trace s)"
  have "deps_done (workGraph j) ?tw x"
    using assms(1) split_first[OF assms(3)] unfolding sequenced_def dispatches_after_def by blast
  moreover obtain n where "map_of (entries (workGraph j)) x = Some n" "d \<in> set (dependsOn n)"
    "d \<in> set (keys (workGraph j))"
    using assms(2) by (auto simp: edges_iff)
  ultimately have m: "SetStatus d Running \<in> set ?tw" by (auto simp: deps_done_def list_all_iff)
  then show ?thesis using first_at_less[OF m] set_takeWhileD[OF m] by simp
qed

lemma path_order:
  assumes "(y, x) \<in> (set (edges (workGraph j)))\<^sup>+" "sequenced j s"
  shows "SetStatus x Running \<in> set (trace s) \<longrightarrow>
         SetStatus y Running \<in> set (trace s) \<and>
         first_at (trace s) (SetStatus y Running) < first_at (trace s) (SetStatus x Running)"
  using assms(1)
proof (induction rule: trancl_induct)
  case (base x)
  then show ?case using edge_order[OF assms(2)] by blast
next
  case (step x z)
  show ?case
  proof
    assume "SetStatus z Running \<in> set (trace s)"
    then have "SetStatus x Running \<in> set (trace s) \<and>
         first_at (trace s) (SetStatus x Running) < first_at (trace s) (SetStatus z Running)"
      using edge_order[OF assms(2) step.hyps(2)] by blast
    then show "SetStatus y Running \<in> set (trace s) \<and>
         first_at (trace s) (SetStatus y Running) < first_at (trace s) (SetStatus z Running)"
      using step.IH by auto
  qed
qed

lemma cycle_not_dispatched:
  "sequenced j s \<Longrightarrow> (x, x) \<in> (set (edges (workGraph j)))\<^sup>+ \<Longrightarrow>
   SetStatus x Running \<notin> set (trace s)"
  using path_order[of x x j s] by auto

lemma cycle_is_node: "(x, x) \<in> (set (edges g))\<^sup>+ \<Longrightarrow> x \<in> set (keys g)"
proof -
  assume "(x, x) \<in> (set (edges g))\<^sup>+"
  then obtain z where "(z, x) \<in> set (edges g)" by (meson tranclD2)
  then obtain n where "map_of (entries g) x = Some n" by (auto simp: edges_iff)
  then show ?thesis by (metis keys_def map_of_eq_Some_iff_key set_map)
qed

lemma cyclic_no_success:
  assumes "reach ev j s" "(x, x) \<in> (set (edges (workGraph j)))\<^sup>+"
  shows "result s \<noteq> Some (Succeeded b u)"
proof
  assume "result s = Some (Succeeded b u)"
  then have "Unblock x \<in> set (trace s)"
    using success_all_unblocked[OF assms(1) _ cycle_is_node[OF assms(2)]] by blast
  then have "SetStatus x Running \<in> set (trace s)"
    using unblocked_completed[OF reach_traced[OF assms(1)]] by blast
  then show False using cycle_not_dispatched[OF reach_sequenced[OF assms(1)] assms(2)] by simp
qed

subsection \<open>Every node whose counter is zero is enqueued\<close>

lemma pushed_iff:
  "map_of deg x = Some v \<Longrightarrow> int (count_list ds x) \<le> v \<Longrightarrow>
   (x \<in> set (pushed ds deg)) = (0 < count_list ds x \<and> v = int (count_list ds x))"
proof (induction ds arbitrary: deg v)
  case Nil
  then show ?case by simp
next
  case (Cons d ds)
  show ?case
  proof (cases "map_of deg d")
    case None
    then have "d \<noteq> x" using Cons.prems by auto
    then show ?thesis using Cons None by simp
  next
    case (Some u)
    show ?thesis
    proof (cases "d = x")
      case True
      then have uv: "u = v" using Some Cons.prems by simp
      have m: "map_of (AList.update d (u - 1) deg) x = Some (v - 1)"
        using True uv by (simp add: update_conv')
      have le: "int (count_list ds x) \<le> v - 1" using Cons.prems(2) True by simp
      have ih: "(x \<in> set (pushed ds (AList.update d (u - 1) deg))) = (0 < count_list ds x \<and> v - 1 = int (count_list ds x))"
        by (rule Cons.IH[OF m le])
      have p: "pushed (d # ds) deg = (if v - 1 = 0 then [x] else []) @ pushed ds (AList.update d (u - 1) deg)"
        using Some True uv by simp
      have c: "count_list (d # ds) x = Suc (count_list ds x)" using True by simp
      show ?thesis unfolding p c using ih le by (cases "v - 1 = 0") auto
    next
      case False
      then have m: "map_of (AList.update d (u - 1) deg) x = Some v"
        using Cons.prems by (simp add: update_conv')
      have le: "int (count_list ds x) \<le> v" using Cons.prems(2) False by simp
      have ih: "(x \<in> set (pushed ds (AList.update d (u - 1) deg))) = (0 < count_list ds x \<and> v = int (count_list ds x))"
        by (rule Cons.IH[OF m le])
      have p: "x \<in> set (pushed (d # ds) deg) \<longleftrightarrow> x \<in> set (pushed ds (AList.update d (u - 1) deg))"
        using Some False by simp
      have c: "count_list (d # ds) x = count_list ds x" using False by simp
      show ?thesis unfolding p c using ih by simp
    qed
  qed
qed

definition flowing :: "sys \<Rightarrow> bool" where
  "flowing s \<longleftrightarrow>
     (result s = None \<longrightarrow>
        (\<forall>x. map_of (inDegree s) x = Some 0 \<longrightarrow>
           x \<in> set (queue s) \<or> SetStatus x Running \<in> set (trace s)))"

lemma flowing_Unblock: "flowing s \<Longrightarrow> flowing (perform (Unblock i) s)"
proof -
  assume f: "flowing s"
  let ?ds = "adjacent s i"
  have "x \<in> set (queue s @ pushed ?ds (inDegree s)) \<or> SetStatus x Running \<in> set (trace s)"
    if r: "result s = None" and z: "map_of (lowered ?ds (inDegree s)) x = Some 0" for x
  proof -
    obtain v where v: "map_of (inDegree s) x = Some v" "v = int (count_list ?ds x)"
      using z by (auto simp: lowered_value)
    show ?thesis
    proof (cases "count_list ?ds x = 0")
      case True
      then show ?thesis using f r v by (auto simp: flowing_def)
    next
      case False
      then show ?thesis using pushed_iff[OF v(1), of ?ds] v(2) by simp
    qed
  qed
  then show ?thesis by (auto simp: flowing_def perform_Unblock simp del: perform.simps)
qed

lemma flowing_perform: "flowing s \<Longrightarrow> task_effect e \<Longrightarrow> flowing (perform e s)"
proof (cases e)
  case (Unblock i)
  assume "flowing s"
  then show ?thesis using Unblock by (simp add: flowing_Unblock del: perform.simps)
qed (auto simp: flowing_def)

lemma flowing_perform_all: "flowing s \<Longrightarrow> \<forall>e \<in> set es. task_effect e \<Longrightarrow> flowing (perform_all es s)"
  by (induction es arbitrary: s) (simp_all add: flowing_perform del: perform.simps)

lemma flowing_advance: "flowing s \<Longrightarrow> flowing (advance ev k s)"
proof -
  assume "flowing s"
  then have "flowing (s\<lparr>promises := (promises s)[k := (fst (promises s ! k), fst (segment ev k s))]\<rparr>)"
    by (simp add: flowing_def)
  then show ?thesis unfolding advance_def
    by (rule flowing_perform_all) (simp add: segment_effects)
qed

lemma flowing_Settle: "flowing (perform (Settle r) s)"
  by (simp add: flowing_def)

lemma flowing_finish: "flowing (finish ev s)"
  by (simp add: finish_cases flowing_Settle del: perform.simps)

lemma flowing_started:
  assumes "flowing s" "proper j s" "result s = None"
  shows "flowing (started s)"
proof -
  have sub: "set (queue s) \<subseteq> fst ` set (unmarked (nodes s))"
    using assms(2) by (metis keys_def proper_def set_map)
  have "SetStatus x Running \<in> set (first_effects (buildId s) (unmarked (nodes s)) (queue s))"
    if "x \<in> set (queue s)" for x
    using first_effects_counts[OF proper_nodes[OF assms(2)] sub, of "buildId s" x] that
    by (metis count_list_0_iff)
  then show ?thesis using assms(1,3)
    by (auto simp: flowing_def started_promises(2))
qed

lemma flowing_next_wave: "flowing s \<Longrightarrow> proper j s \<Longrightarrow> result s = None \<Longrightarrow> flowing (next_wave ev s)"
  by (simp add: next_wave_cases flowing_Settle flowing_finish flowing_started
        del: perform.simps split: option.splits)

lemma flowing_controller: "flowing s \<Longrightarrow> proper j s \<Longrightarrow> flowing (controller ev s)"
  by (cases "result s")
     (simp_all add: controller_def flowing_Settle flowing_next_wave del: perform.simps split: option.splits)

lemma flowing_ready: "flowing (ready g (greeted b))"
proof -
  have "x \<in> set (initially_ready g)" if "map_of (fst (index_of g)) x = Some 0" for x
    using map_of_SomeD[OF that] by (force simp: initially_ready_def)
  then show ?thesis by (simp add: flowing_def)
qed

lemma reach_flowing: "reach ev j s \<Longrightarrow> flowing s"
proof (induction rule: reach.induct)
  case reach_launch
  show ?case unfolding launch_def
    by (rule flowing_next_wave[OF flowing_ready proper_ready]) simp
next
  case (reach_step s k)
  then show ?case
    using flowing_controller[OF flowing_advance proper_advance[OF reach_proper]]
    by (simp add: sys_step_def)
qed

subsection \<open>Without a cycle the loop ends with every node completed\<close>

lemma dispatched_fulfilled:
  assumes "traced ev j s" "fulfilled (promises s)" "SetStatus x Running \<in> set (trace s)"
  shows "Unblock x \<in> set (trace s)"
proof -
  obtain p where p: "story ev j s x p" "(x, p) \<in> set (promises s) \<or> p = Fulfilled"
    using traced_story[OF assms(1,3), of x] by auto
  have pf: "p = Fulfilled" using p(2) assms(2) by (auto simp: fulfilled_def list_all_iff)
  obtain n w es where a: "map_of (entries (workGraph j)) x = Some n"
    "hist ev (jobBuildId j) w n p es" "own x (trace s) = own x es"
    using p(1) by (auto simp: story_def)
  have "node_id n = x" using entries_node_id[OF map_of_SomeD[OF a(1)]] by simp
  then have "count_list es (Unblock x) = 1" using hist_shaped[OF a(2)] pf by (simp add: shaped_def)
  then have "Unblock x \<in> set es" by (metis count_list_0_iff zero_neq_one)
  then have "Unblock x \<in> set (own x es)" by (simp add: concerns_mem_own)
  then show ?thesis using a(3) own_subset[of x "trace s"] by auto
qed

lemma drained:
  assumes "flowing s" "counted j s" "traced ev j s" "proper j s" "tallied j s"
    "result s = None" "fulfilled (promises s)" "queue s = []"
    "acyclic (set (edges (workGraph j)))"
  shows "completedCount s = length (nodes s)"
proof -
  let ?g = "workGraph j"
  have "wf (set (edges ?g))" using assms(9) by (simp add: finite_acyclic_wf)
  then have all: "x \<in> set (keys ?g) \<longrightarrow> Unblock x \<in> set (trace s)" for x
  proof (induction x rule: wf_induct_rule)
    case (less x)
    show ?case
    proof
      assume xk: "x \<in> set (keys ?g)"
      then obtain n where n: "map_of (entries ?g) x = Some n"
        using proper_lookup[OF assms(4) xk] by blast
      have "Unblock d \<in> set (trace s)" if "d \<in> set (dependsOn n)" "d \<in> set (keys ?g)" for d
        using less[of d] that n by (auto simp: edges_iff)
      then have "blockers ?g (trace s) (dependsOn n) = []"
        by (auto simp: blockers_def filter_empty_conv)
      then have "map_of (inDegree s) x = Some 0" using assms(2) n by (simp add: counted_def)
      then have "SetStatus x Running \<in> set (trace s)"
        using assms(1,6,8) by (auto simp: flowing_def)
      then show "Unblock x \<in> set (trace s)" by (rule dispatched_fulfilled[OF assms(3,7)])
    qed
  qed
  have "filter (\<lambda>i. Unblock i \<in> set (trace s)) (keys ?g) = keys ?g"
    using all by (simp add: filter_id_conv)
  then show ?thesis using assms(5) proper_size[OF assms(4)] by (simp add: tallied_def)
qed

lemma rejected_not_Incomplete:
  assumes "traced ev j s" "(i, Rejected c) \<in> set (promises s)"
  shows "c \<noteq> Incomplete"
proof -
  obtain n w es where "hist ev (jobBuildId j) w n (Rejected c) es"
    using rejected_story[OF assms] by blast
  then show ?thesis using hist_blamed by (fastforce simp: blamed_def)
qed

lemma next_wave_complete:
  assumes "flowing s" "counted j s" "traced ev j s" "proper j s" "tallied j s"
    "result s = None" "fulfilled (promises s)" "acyclic (set (edges (workGraph j)))"
  shows "result (next_wave ev s) \<noteq> Some (FailedWith Incomplete)"
proof (cases "queue s = []")
  case True
  then show ?thesis using drained[OF assms(1-7) True assms(8)]
    by (simp add: next_wave_cases finish_cases split: option.splits)
next
  case False
  have "c \<noteq> Incomplete" if h: "first_rejected (promises (started s)) = Some c" for c
  proof -
    obtain i where "(i, Rejected c) \<in> set (promises (started s))"
      using first_rejected_Some[OF h] by blast
    then show ?thesis by (auto simp: started_promises(1) first_promise_def split: if_splits)
  qed
  then show ?thesis using False assms(6)
    by (auto simp: next_wave_cases split: option.splits)
qed

lemma controller_complete:
  assumes "flowing s" "counted j s" "traced ev j s" "proper j s" "tallied j s"
    "result s \<noteq> Some (FailedWith Incomplete)" "acyclic (set (edges (workGraph j)))"
  shows "result (controller ev s) \<noteq> Some (FailedWith Incomplete)"
proof (cases "result s")
  case (Some r)
  then show ?thesis using assms(6) by (simp add: controller_def)
next
  case None
  show ?thesis
  proof (cases "first_rejected (promises s)")
    case (Some c)
    then have "c \<noteq> Incomplete"
      using first_rejected_Some[OF Some] rejected_not_Incomplete[OF assms(3)] by blast
    then show ?thesis using None Some by (simp add: controller_def)
  next
    case fr: None
    show ?thesis
    proof (cases "fulfilled (promises s)")
      case True
      then show ?thesis using None fr next_wave_complete[OF assms(1-5) None True assms(7)]
        by (simp add: controller_def fulfilled_def)
    next
      case False
      then show ?thesis using None fr by (simp add: controller_def fulfilled_def)
    qed
  qed
qed

lemma reach_complete:
  assumes "reach ev j s" "acyclic (set (edges (workGraph j)))"
  shows "result s \<noteq> Some (FailedWith Incomplete)"
  using assms(1)
proof (induction rule: reach.induct)
  case reach_launch
  show ?case unfolding launch_def
    by (rule next_wave_complete[OF flowing_ready counted_ready traced_ready proper_ready
          tallied_ready _ _ assms(2)]) (simp_all add: fulfilled_def)
next
  case (reach_step s k)
  note r = reach_step.hyps(1)
  have a: "result (advance ev k s) \<noteq> Some (FailedWith Incomplete)"
    using reach_step.IH by (simp add: advance_frame)
  show ?case unfolding sys_step_def
    by (rule controller_complete[OF flowing_advance[OF reach_flowing[OF r]]
          counted_advance[OF reach_counted[OF r] reach_traced[OF r] reach_proper[OF r] reach_step.hyps(2,3)]
          traced_advance[OF reach_traced[OF r] reach_proper[OF r] reach_step.hyps(2,3)]
          proper_advance[OF reach_proper[OF r] reach_step.hyps(2)]
          tallied_advance[OF reach_tallied[OF r] reach_traced[OF r] reach_proper[OF r] reach_step.hyps(2,3)]
          a assms(2)])
qed

subsection \<open>Terminal statuses\<close>

lemma acked_acknowledging: "acknowledging ev \<Longrightarrow> acked ev b w st = None"
  by (simp add: acknowledging_def acked_def)

text \<open>With every progress event acknowledged a node ends completed or failed, never both.\<close>

definition firm :: "'a node_scheme \<Rightarrow> pc \<Rightarrow> effect list \<Rightarrow> bool" where
  "firm n p es \<longleftrightarrow>
     (working p \<longrightarrow> statuses (node_id n) es = [Running]) \<and>
     (p = AwaitCompleted \<or> p = Fulfilled \<longrightarrow> statuses (node_id n) es = [Running, Completed]) \<and>
     ((\<exists>m. p = AwaitError m) \<longrightarrow> statuses (node_id n) es = [Running, Failed]) \<and>
     (\<forall>c. p = Rejected c \<longrightarrow>
        statuses (node_id n) es = [Running, Failed] \<and> (\<exists>m. c = TaskFailed (node_id n) (task n) m))"

lemma hist_firm: "hist ev b w n p es \<Longrightarrow> acknowledging ev \<Longrightarrow> firm n p es"
proof (induction rule: hist.induct)
  case hist_begin
  then show ?case by (simp add: firm_def begin_task_def)
next
  case (hist_step p es)
  then show ?case
    by (cases p)
       (auto simp: firm_def catch_block_def mark_completed_def acked_acknowledging
             split: option.splits sum.splits)
qed

definition status_shapes :: "status list list" where
  "status_shapes = [[], [Running], [Running, Completed], [Running, Failed],
                    [Running, Completed, Failed]]"

lemma shaped_shapes: "shaped i p es \<Longrightarrow> statuses i es \<in> set status_shapes"
  by (cases p) (auto simp: shaped_def status_shapes_def)

lemma reach_shapes:
  assumes "reach ev j s"
  shows "statuses x (trace s) \<in> set status_shapes"
proof -
  consider (none) "own x (trace s) = []"
    | (some) p where "story ev j s x p"
    using reach_story_or_nothing[OF assms, of x] by blast
  then show ?thesis
  proof cases
    case none
    then have "statuses x (trace s) = []" by (metis statuses_own statuses.simps(1))
    then show ?thesis by (simp add: status_shapes_def)
  next
    case some
    then obtain n w es where a: "map_of (entries (workGraph j)) x = Some n"
      "hist ev (jobBuildId j) w n p es" "own x (trace s) = own x es"
      by (auto simp: story_def)
    have "node_id n = x" using entries_node_id[OF map_of_SomeD[OF a(1)]] by simp
    then have "statuses x es \<in> set status_shapes"
      using shaped_shapes[OF hist_shaped[OF a(2)]] by simp
    then show ?thesis using a(3) by (metis statuses_own)
  qed
qed

lemma final_firm:
  assumes "reach ev j s" "\<forall>p \<in> set (promises s). \<not> in_flight (snd p)" "acknowledging ev"
  shows "statuses x (trace s) \<in> set [[], [Running, Completed], [Running, Failed]]"
proof -
  consider (none) "own x (trace s) = []"
    | (some) p where "story ev j s x p" "(x, p) \<in> set (promises s) \<or> p = Fulfilled"
    using reach_story_or_nothing[OF assms(1), of x] by blast
  then show ?thesis
  proof cases
    case none
    then have "statuses x (trace s) = []" by (metis statuses_own statuses.simps(1))
    then show ?thesis by simp
  next
    case some
    then obtain n w es where a: "map_of (entries (workGraph j)) x = Some n"
      "hist ev (jobBuildId j) w n p es" "own x (trace s) = own x es"
      by (auto simp: story_def)
    have nf: "\<not> in_flight p" using some(2) assms(2) by auto
    have i: "node_id n = x" using entries_node_id[OF map_of_SomeD[OF a(1)]] by simp
    have "statuses x es = [Running, Completed] \<or> statuses x es = [Running, Failed]"
      using hist_firm[OF a(2) assms(3)] nf i by (cases p) (auto simp: firm_def)
    then show ?thesis using a(3) by (metis statuses_own list.set_intros)
  qed
qed

lemma success_history:
  assumes "reach ev j s" "result s = Some (Succeeded b u)" "i \<in> set (keys (workGraph j))"
  shows "statuses i (trace s) = [Running, Completed]"
proof -
  have u: "Unblock i \<in> set (trace s)" by (rule success_all_unblocked[OF assms])
  obtain p where p: "story ev j s i p"
    using reach_story[OF assms(1) u] by auto
  have pf: "p = Fulfilled" using story_not_unblocked[OF p] u by blast
  obtain m w es where a: "map_of (entries (workGraph j)) i = Some m"
    "hist ev (jobBuildId j) w m p es" "own i (trace s) = own i es"
    using p by (auto simp: story_def)
  have "node_id m = i" using entries_node_id[OF map_of_SomeD[OF a(1)]] by simp
  then have "statuses i es = [Running, Completed]"
    using hist_shaped[OF a(2)] pf by (simp add: shaped_def)
  then show ?thesis using a(3) by (metis statuses_own)
qed

text \<open>When every progress event is acknowledged and no node is set failed, the only error
  left is the count-mismatch error.\<close>

lemma quiet_failure:
  assumes "reach ev j s" "acknowledging ev" "\<forall>i. SetStatus i Failed \<notin> set (trace s)"
    "result s = Some (FailedWith c)"
  shows "c = Incomplete"
proof -
  have "\<not> (i, Rejected c) \<in> set (promises s)" for i
  proof
    assume r: "(i, Rejected c) \<in> set (promises s)"
    obtain n w es where a: "node_id n = i" "hist ev (jobBuildId j) w n (Rejected c) es"
      "own i (trace s) = own i es"
      using rejected_story[OF reach_traced[OF assms(1)] r] by blast
    have "statuses i es = [Running, Failed]" using hist_firm[OF a(2) assms(2)] a(1) by (simp add: firm_def)
    then have "statuses i (trace s) = [Running, Failed]" using a(3) by (metis statuses_own)
    then have "SetStatus i Failed \<in> set (trace s)" using statuses_mem[of Failed i "trace s"] by simp
    then show False using assms(3) by simp
  qed
  then have "own_failure ev s c" using reach_caused[OF assms(1)] assms(4) by (auto simp: caused_def)
  then show ?thesis using assms(2) by (auto simp: own_failure_def acked_acknowledging)
qed

lemma aborted_own [simp]: "own x (trace (aborted b e)) = []"
  by (simp add: aborted_fields emitted_own)

lemma undispatched_untouched:
  assumes "reach ev j s" "SetStatus x Running \<notin> set (trace s)"
  shows "own x (trace s) = []"
  using reach_story_or_nothing[OF assms(1), of x] story_dispatched assms(2) by blast




subsection \<open>Concrete builds\<close>

text \<open>An environment in which every external operation resolves, and small work graphs,
  for the examples below.\<close>

definition resolving :: env where
  "resolving = \<lparr>publish = (\<lambda>w st. None), queue_add = (\<lambda>i. None),
     job_result = (\<lambda>i. Inr \<lparr>fileName = i, code = ''code''\<rparr>), mkdir = (\<lambda>i. None),
     write_file = (\<lambda>i. None), upload = (\<lambda>i. None),
     start_environment = (\<lambda>i. Inr (Some ''http://preview''))\<rparr>"

definition boom :: err where
  "boom = \<lparr>detail = None, message = ''boom''\<rparr>"

definition mk_node :: "string \<Rightarrow> string \<Rightarrow> string list \<Rightarrow> node" where
  "mk_node i t ds = \<lparr>node_id = i, task = t, description = [], dependsOn = ds\<rparr>"

definition two_pages :: jobData where
  "two_pages = \<lparr>jobBuildId = ''b1'',
     workGraph = [mk_node ''A'' ''generate-page'' [], mk_node ''B'' ''generate-page'' []]\<rparr>"

definition add_fails_for :: "string \<Rightarrow> env" where
  "add_fails_for x = resolving\<lparr>queue_add := (\<lambda>i. if i = x then Some boom else None)\<rparr>"

definition a_failing_b_waiting :: sys where
  "a_failing_b_waiting =
     sys_step (add_fails_for ''A'') 0 (sys_step (add_fails_for ''A'') 0 (start (add_fails_for ''A'') two_pages))"







definition vm_V :: tracked where
  "vm_V = \<lparr>node_id = ''V'', task = ''start-vm'', description = [], dependsOn = [''L''],
           status = Pending\<rparr>"

definition unnamed_build :: jobData where
  "unnamed_build = \<lparr>jobBuildId = [], workGraph = [mk_node ''A'' ''generate-page'' []]\<rparr>"



definition chain :: jobData where
  "chain = \<lparr>jobBuildId = ''b1'',
     workGraph = [mk_node ''A'' ''generate-page'' [], mk_node ''B'' ''generate-page'' [''A'']]\<rparr>"

definition with_cycle :: jobData where
  "with_cycle = \<lparr>jobBuildId = ''b1'',
     workGraph = [mk_node ''A'' ''lint'' [], mk_node ''B'' ''lint'' [''C''],
                  mk_node ''C'' ''lint'' [''B'']]\<rparr>"




definition loop_beside :: jobData where
  "loop_beside = \<lparr>jobBuildId = ''b1'',
     workGraph = [mk_node ''A'' ''generate-page'' [], mk_node ''B'' ''generate-page'' [''B'']]\<rparr>"

section \<open>The claims\<close>

subsection \<open>C4: a failing node and its siblings\<close>

text \<open>C4 as stated fails: the controller does not await the other dispatches of the wave
  before it fails. With two generation nodes \<open>A\<close> and \<open>B\<close> in one wave, where
  \<open>taskQueue.add\<close> rejects for \<open>A\<close> while \<open>B\<close> is still at its first await, the pipeline
  settles as failed (\<open>Settle\<close>) before \<open>B\<close> has even submitted its job; \<open>B\<close> completes
  afterwards.\<close>

theorem two_pages_fail_fast:
  "trace (executeBuildPipeline (add_fails_for ''A'') [''A'', ''A'', ''A''] two_pages) =
     [Progress Initializing PActive [], Enqueue ''A'', Enqueue ''B'',
      Progress (StartingBatch 2) PActive [], SetStatus ''A'' Running,
      Progress (Starting ''A'') PActive ''Task: generate-page'',
      SetStatus ''B'' Running,
      Progress (Starting ''B'') PActive ''Task: generate-page'',
      QueueAdd ''generate-page'' ''A'' [], SetStatus ''A'' Failed,
      Progress (FailedStep ''A'') PError ''boom'',
      Settle (FailedWith (TaskFailed ''A'' ''generate-page'' ''boom'')),
      QueueAdd ''generate-page'' ''B'' [], Mkdir ''B'' ''B'',
      WriteFile ''B'' ''B'' ''code'', Upload ''B'' ''B'' ''code'',
      SetStatus ''B'' Completed, Progress (CompletedStep ''B'') PCompleted [],
      CountCompleted, Unblock ''B'']"
  by code_simp

text \<open>C4 (amended): when a node inside a wave fails, the controller transitions to Failed
  in the very step in which the first promise of the wave rejects, as \<open>Promise.all\<close> does;
  the other outstanding dispatches of the wave are neither awaited nor cancelled: their
  promises are left as they are at that moment, and each still runs to its own terminal
  outcome, so that the run ends with no promise pending.\<close>

theorem rejection_settles_at_once:
  "(\<forall>p \<in> set (promises (executeBuildPipeline ev sched j)). \<not> in_flight (snd p)) \<and>
   (result s = None \<longrightarrow> first_rejected (promises s) = None \<longrightarrow> k < length (promises s) \<longrightarrow>
    fst (segment ev k s) = Rejected c \<longrightarrow>
      result (sys_step ev k s) = Some (FailedWith c) \<and>
      promises (sys_step ev k s) = (promises s)[k := (fst (promises s ! k), Rejected c)])"
proof (intro conjI impI)
  show "\<forall>p \<in> set (promises (executeBuildPipeline ev sched j)). \<not> in_flight (snd p)"
    by (simp add: executeBuildPipeline_def exec_settled)
next
  assume a: "result s = None" "first_rejected (promises s) = None" "k < length (promises s)"
    "fst (segment ev k s) = Rejected c"
  have f: "promises (advance ev k s) = (promises s)[k := (fst (promises s ! k), Rejected c)]"
    "result (advance ev k s) = None"
    using a(1,4) by (simp_all add: advance_frame)
  have fr: "first_rejected (promises (advance ev k s)) = Some c"
    using f(1) first_rejected_update[OF a(2,3)] by simp
  have "controller ev (advance ev k s) = perform (Settle (FailedWith c)) (advance ev k s)"
    using f(2) fr by (simp add: controller_def)
  then show "result (sys_step ev k s) = Some (FailedWith c)"
    and "promises (sys_step ev k s) = (promises s)[k := (fst (promises s ! k), Rejected c)]"
    using f(1) by (simp_all add: sys_step_def)
qed

theorem rejection_settles_at_once_witness:
  "result a_failing_b_waiting = None \<and>
   promises a_failing_b_waiting = [(''A'', AwaitError ''boom''), (''B'', AwaitActive)] \<and>
   result (sys_step (add_fails_for ''A'') 0 a_failing_b_waiting)
     = Some (FailedWith (TaskFailed ''A'' ''generate-page'' ''boom'')) \<and>
   promises (sys_step (add_fails_for ''A'') 0 a_failing_b_waiting)
     = [(''A'', Rejected (TaskFailed ''A'' ''generate-page'' ''boom'')), (''B'', AwaitActive)] \<and>
   list_all (\<lambda>p. \<not> in_flight (snd p))
     (promises (executeBuildPipeline (add_fails_for ''A'') [''A'', ''A'', ''A''] two_pages))"
proof -
  let ?ev = "add_fails_for ''A''"
  let ?c = "TaskFailed ''A'' ''generate-page'' ''boom''"
  have h1: "result a_failing_b_waiting = None" by code_simp
  have h2: "first_rejected (promises a_failing_b_waiting) = None" by code_simp
  have h3: "0 < length (promises a_failing_b_waiting)" by code_simp
  have h4: "fst (segment ?ev 0 a_failing_b_waiting) = Rejected ?c" by code_simp
  have p: "promises a_failing_b_waiting = [(''A'', AwaitError ''boom''), (''B'', AwaitActive)]"
    by code_simp
  note t = rejection_settles_at_once[of ?ev "[''A'', ''A'', ''A'']" two_pages a_failing_b_waiting 0 ?c]
  from t h1 h2 h3 h4 have
    c: "result (sys_step ?ev 0 a_failing_b_waiting) = Some (FailedWith ?c)"
       "promises (sys_step ?ev 0 a_failing_b_waiting)
          = (promises a_failing_b_waiting)[0 := (fst (promises a_failing_b_waiting ! 0), Rejected ?c)]"
    by blast+
  from t have "\<forall>p \<in> set (promises (executeBuildPipeline ?ev [''A'', ''A'', ''A''] two_pages)). \<not> in_flight (snd p)"
    by blast
  then have l: "list_all (\<lambda>p. \<not> in_flight (snd p)) (promises (executeBuildPipeline ?ev [''A'', ''A'', ''A''] two_pages))"
    by (simp add: list_all_iff)
  show ?thesis using h1 p c l by simp
qed

subsection \<open>C5: success only with every node completed\<close>



subsection \<open>C7: a generation node persists and delivers before it is completed\<close>



subsection \<open>C10: nodes that are neither generated nor start-vm\<close>



subsection \<open>C8: the progress events of a node\<close>

text \<open>C8 as stated fails: \<open>emitProgress\<close> returns at once when \<open>buildId\<close> is falsy, so for a
  build with an empty \<open>buildId\<close> a node is dispatched and completed without any progress
  event.\<close>

theorem unnamed_build_is_silent:
  "statuses ''A'' (trace (executeBuildPipeline resolving [] unnamed_build)) = [Running, Completed] \<and>
   events ''A'' (trace (executeBuildPipeline resolving [] unnamed_build)) = [] \<and>
   result (executeBuildPipeline resolving [] unnamed_build) = Some (Succeeded [] None)"
  by code_simp

text \<open>C8 (amended): for every dispatched node of a build whose \<open>buildId\<close> is not empty, the
  progress events of the node are published in status-transition order: exactly one
  \<open>active\<close> event first, then at most one \<open>completed\<close> and at most one \<open>error\<close> event, in this
  order; when every progress publish is acknowledged, once the run is over there is exactly
  one terminal event, \<open>completed\<close> for a node that ended completed and \<open>error\<close> for a node
  that ended failed. For a build with an empty \<open>buildId\<close> no event is published.\<close>

theorem progress_events_in_transition_order:
  "(jobBuildId j \<noteq> [] \<longrightarrow> SetStatus i Running \<in> set (trace (executeBuildPipeline ev sched j)) \<longrightarrow>
      (events i (trace (executeBuildPipeline ev sched j)) = [PActive]
       \<or> events i (trace (executeBuildPipeline ev sched j)) = [PActive, PCompleted]
       \<or> events i (trace (executeBuildPipeline ev sched j)) = [PActive, PError]
       \<or> events i (trace (executeBuildPipeline ev sched j)) = [PActive, PCompleted, PError]) \<and>
      (acknowledging ev \<longrightarrow>
         statuses i (trace (executeBuildPipeline ev sched j)) = [Running, Completed] \<and>
         events i (trace (executeBuildPipeline ev sched j)) = [PActive, PCompleted]
         \<or> statuses i (trace (executeBuildPipeline ev sched j)) = [Running, Failed] \<and>
           events i (trace (executeBuildPipeline ev sched j)) = [PActive, PError])) \<and>
   (jobBuildId j = [] \<longrightarrow> events i (trace (executeBuildPipeline ev sched j)) = [])"
proof (intro conjI impI)
  let ?fin = "executeBuildPipeline ev sched j"
  assume b: "jobBuildId j \<noteq> []" and d: "SetStatus i Running \<in> set (trace ?fin)"
  have r: "reach ev j ?fin"
    using pipeline_cases[of ev j sched] d by (auto simp: aborted_fields emitted_def split: if_splits)
  obtain n w es p where h: "node_id n = i" "hist ev (jobBuildId j) w n p es"
    "own i (trace ?fin) = own i es" "\<not> in_flight p"
    using final_story[OF r pipeline_final d] by auto
  have e: "events i (trace ?fin) = events i es" "statuses i (trace ?fin) = statuses i es"
    using h(3) by (metis events_own, metis statuses_own)
  have "voiced i p es" using hist_voiced[OF h(2) b] h(1) by simp
  then show "events i (trace ?fin) = [PActive] \<or> events i (trace ?fin) = [PActive, PCompleted]
       \<or> events i (trace ?fin) = [PActive, PError]
       \<or> events i (trace ?fin) = [PActive, PCompleted, PError]"
    using h(4) by (cases p) (auto simp: voiced_def e)
  assume "acknowledging ev"
  then have "told n p es" using hist_told[OF h(2) b] by simp
  then show "statuses i (trace ?fin) = [Running, Completed] \<and> events i (trace ?fin) = [PActive, PCompleted]
         \<or> statuses i (trace ?fin) = [Running, Failed] \<and> events i (trace ?fin) = [PActive, PError]"
    using h(1,4) by (cases p) (auto simp: told_def e)
next
  let ?fin = "executeBuildPipeline ev sched j"
  assume b: "jobBuildId j = []"
  consider (a) e where "?fin = aborted (jobBuildId j) e" | (b) "reach ev j ?fin"
    using pipeline_cases[of ev j sched] by blast
  then show "events i (trace ?fin) = []"
  proof cases
    case a
    then show ?thesis by simp
  next
    case b
    from reach_story_or_nothing[OF b, of i] show ?thesis
    proof
      assume "own i (trace ?fin) = []"
      then show ?thesis by (metis events_own events.simps(1))
    next
      assume "\<exists>p. story ev j ?fin i p \<and> ((i, p) \<in> set (promises ?fin) \<or> p = Fulfilled)"
      then obtain p n w es where h: "hist ev (jobBuildId j) w n p es" "own i (trace ?fin) = own i es"
        by (auto simp: story_def)
      have "events i es = []" using hist_mute[OF h(1)] \<open>jobBuildId j = []\<close> by simp
      then show ?thesis using h(2) by (metis events_own)
    qed
  qed
qed

theorem progress_events_in_transition_order_witness:
  "jobBuildId two_pages \<noteq> [] \<and> acknowledging (add_fails_for ''A'') \<and>
   SetStatus ''A'' Running \<in> set (trace (executeBuildPipeline (add_fails_for ''A'') [] two_pages)) \<and>
   SetStatus ''B'' Running \<in> set (trace (executeBuildPipeline (add_fails_for ''A'') [] two_pages)) \<and>
   statuses ''A'' (trace (executeBuildPipeline (add_fails_for ''A'') [] two_pages)) = [Running, Failed] \<and>
   events ''A'' (trace (executeBuildPipeline (add_fails_for ''A'') [] two_pages)) = [PActive, PError] \<and>
   statuses ''B'' (trace (executeBuildPipeline (add_fails_for ''A'') [] two_pages)) = [Running, Completed] \<and>
   events ''B'' (trace (executeBuildPipeline (add_fails_for ''A'') [] two_pages)) = [PActive, PCompleted] \<and>
   jobBuildId unnamed_build = [] \<and>
   events ''A'' (trace (executeBuildPipeline resolving [] unnamed_build)) = []"
proof -
  let ?ev = "add_fails_for ''A''"
  let ?tr = "trace (executeBuildPipeline ?ev [] two_pages)"
  have h1: "jobBuildId two_pages \<noteq> []" by code_simp
  have h2: "acknowledging ?ev" by (simp add: acknowledging_def add_fails_for_def resolving_def)
  have h3: "SetStatus ''A'' Running \<in> set ?tr" "SetStatus ''B'' Running \<in> set ?tr" by code_simp+
  have h4: "jobBuildId unnamed_build = []" by code_simp
  have sa: "statuses ''A'' ?tr \<noteq> [Running, Completed]" by code_simp
  have sb: "statuses ''B'' ?tr \<noteq> [Running, Failed]" by code_simp
  note ta = progress_events_in_transition_order[of two_pages "''A''" ?ev "[]"]
  note tb = progress_events_in_transition_order[of two_pages "''B''" ?ev "[]"]
  note tc = progress_events_in_transition_order[of unnamed_build "''A''" resolving "[]"]
  from ta h1 h2 h3(1) sa have a: "statuses ''A'' ?tr = [Running, Failed]"
    "events ''A'' ?tr = [PActive, PError]" by blast+
  from tb h1 h2 h3(2) sb have b: "statuses ''B'' ?tr = [Running, Completed]"
    "events ''B'' ?tr = [PActive, PCompleted]" by blast+
  from tc h4 have c: "events ''A'' (trace (executeBuildPipeline resolving [] unnamed_build)) = []"
    by blast
  show ?thesis using h1 h2 h3 h4 a b c by blast
qed

subsection \<open>C6: dependencies that name no node\<close>




subsection \<open>C1: every node once, after its dependencies\<close>

text \<open>C1 as stated fails: in a valid acyclic graph a node need not reach a terminal status.
  In the chain \<open>A\<close>, \<open>B\<close> with \<open>B\<close> depending on \<open>A\<close>, when the job of \<open>A\<close> cannot be
  submitted, \<open>A\<close> fails and the pipeline fails; \<open>B\<close> is never dispatched, no status is ever
  assigned to it and it is left pending.\<close>

theorem chain_dependent_stays_pending:
  "edges (workGraph chain) = [(''A'', ''B'')] \<and>
   statuses ''A'' (trace (executeBuildPipeline (add_fails_for ''A'') [] chain)) = [Running, Failed] \<and>
   statuses ''B'' (trace (executeBuildPipeline (add_fails_for ''A'') [] chain)) = [] \<and>
   map_option status (map_of (nodes (executeBuildPipeline (add_fails_for ''A'') [] chain)) ''B'')
     = Some Pending \<and>
   result (executeBuildPipeline (add_fails_for ''A'') [] chain)
     = Some (FailedWith (TaskFailed ''A'' ''generate-page'' ''boom''))"
  by code_simp

text \<open>C1 (amended): for every work graph, each node is dispatched at most once, and not
  before every node named in its \<open>dependsOn\<close> has been dispatched and set completed; a node
  behind a dependency that did not complete is never dispatched and reaches no terminal
  status. The statuses assigned to a node are running, then at most one completed and at most
  one failed, in this order; when every progress publish is acknowledged, a node that was
  dispatched ends with exactly one terminal status. When moreover the graph has no cycle and
  no node fails, the build succeeds and every node was dispatched once and completed once.\<close>

theorem nodes_run_once_after_their_dependencies:
  "count_list (trace (executeBuildPipeline ev sched j)) (SetStatus x Running) \<le> 1 \<and>
   (trace (executeBuildPipeline ev sched j) = tr1 @ SetStatus x Running # tr2 \<longrightarrow>
      deps_done (workGraph j) tr1 x) \<and>
   statuses x (trace (executeBuildPipeline ev sched j)) \<in> set status_shapes \<and>
   (acknowledging ev \<longrightarrow>
      statuses x (trace (executeBuildPipeline ev sched j))
        \<in> set [[], [Running, Completed], [Running, Failed]]) \<and>
   (acyclic (set (edges (workGraph j))) \<longrightarrow> acknowledging ev \<longrightarrow>
    (\<forall>i. SetStatus i Failed \<notin> set (trace (executeBuildPipeline ev sched j))) \<longrightarrow>
      (\<exists>u. result (executeBuildPipeline ev sched j) = Some (Succeeded (jobBuildId j) u)) \<and>
      (x \<in> set (keys (workGraph j)) \<longrightarrow>
         statuses x (trace (executeBuildPipeline ev sched j)) = [Running, Completed]))"
proof -
  let ?fin = "executeBuildPipeline ev sched j"
  consider (a) e where "acked ev (jobBuildId j) 0 Initializing = Some e"
      "?fin = aborted (jobBuildId j) e"
    | (b) "reach ev j ?fin"
    using pipeline_cases[of ev j sched] by blast
  then show ?thesis
  proof cases
    case a
    have n: "SetStatus x st \<notin> set (trace ?fin)" for st
      by (simp add: a(2) aborted_fields emitted_def)
    have "count_list (trace ?fin) (SetStatus x Running) = 0" using n by (simp add: count_list_0)
    moreover have "trace ?fin \<noteq> tr1 @ SetStatus x Running # tr2"
      using n[of Running] by (metis in_set_conv_decomp)
    moreover have "statuses x (trace ?fin) = []" by (simp add: a(2))
    moreover have "\<not> acknowledging ev" using a(1) by (auto simp: acked_acknowledging)
    ultimately show ?thesis by (simp add: status_shapes_def)
  next
    case b
    have fin: "\<forall>p \<in> set (promises ?fin). \<not> in_flight (snd p)" by (rule pipeline_final)
    have 1: "count_list (trace ?fin) (SetStatus x Running) \<le> 1"
      using reach_once[OF b] by (simp add: once_def)
    have 2: "trace ?fin = tr1 @ SetStatus x Running # tr2 \<longrightarrow> deps_done (workGraph j) tr1 x"
      using reach_sequenced[OF b] unfolding sequenced_def dispatches_after_def by blast
    have 3: "statuses x (trace ?fin) \<in> set status_shapes" by (rule reach_shapes[OF b])
    have 4: "acknowledging ev \<longrightarrow>
      statuses x (trace ?fin) \<in> set [[], [Running, Completed], [Running, Failed]]"
      using final_firm[OF b fin] by blast
    have 5: "(\<exists>u. result ?fin = Some (Succeeded (jobBuildId j) u)) \<and>
      (x \<in> set (keys (workGraph j)) \<longrightarrow> statuses x (trace ?fin) = [Running, Completed])"
      if h: "acyclic (set (edges (workGraph j)))" "acknowledging ev"
        "\<forall>i. SetStatus i Failed \<notin> set (trace ?fin)"
    proof -
      obtain r where r: "result ?fin = Some r" using pipeline_settles[of ev sched j] by auto
      have "r \<noteq> FailedWith c" for c
        using quiet_failure[OF b h(2,3), of c] reach_complete[OF b h(1)] r by auto
      then obtain b' u where s: "r = Succeeded b' u" by (cases r) auto
      have "b' = jobBuildId j"
        using reach_waiting[OF b] reach_proper[OF b] r s by (simp add: waiting_def proper_def)
      then show ?thesis using success_history[OF b] r s by auto
    qed
    show ?thesis using 1 2 3 4 5 by blast
  qed
qed


theorem nodes_run_once_after_their_dependencies_witness:
  "acknowledging resolving \<and> acyclic (set (edges (workGraph chain))) \<and>
   trace (executeBuildPipeline resolving [] chain) =
     [Progress Initializing PActive [], Enqueue ''A'',
      Progress (StartingBatch 1) PActive [], SetStatus ''A'' Running,
      Progress (Starting ''A'') PActive ''Task: generate-page'',
      QueueAdd ''generate-page'' ''A'' [], Mkdir ''A'' ''A'',
      WriteFile ''A'' ''A'' ''code'', Upload ''A'' ''A'' ''code'',
      SetStatus ''A'' Completed, Progress (CompletedStep ''A'') PCompleted [],
      CountCompleted, Unblock ''A'', Enqueue ''B'',
      Progress (StartingBatch 1) PActive []]
     @ SetStatus ''B'' Running #
     [Progress (Starting ''B'') PActive ''Task: generate-page'',
      QueueAdd ''generate-page'' ''B'' [], Mkdir ''B'' ''B'',
      WriteFile ''B'' ''B'' ''code'', Upload ''B'' ''B'' ''code'',
      SetStatus ''B'' Completed, Progress (CompletedStep ''B'') PCompleted [],
      CountCompleted, Unblock ''B'', Progress Deployed PCompleted [],
      Settle (Succeeded ''b1'' None)] \<and>
   deps_done (workGraph chain)
     [Progress Initializing PActive [], Enqueue ''A'',
      Progress (StartingBatch 1) PActive [], SetStatus ''A'' Running,
      Progress (Starting ''A'') PActive ''Task: generate-page'',
      QueueAdd ''generate-page'' ''A'' [], Mkdir ''A'' ''A'',
      WriteFile ''A'' ''A'' ''code'', Upload ''A'' ''A'' ''code'',
      SetStatus ''A'' Completed, Progress (CompletedStep ''A'') PCompleted [],
      CountCompleted, Unblock ''A'', Enqueue ''B'',
      Progress (StartingBatch 1) PActive []] ''B'' \<and>
   count_list (trace (executeBuildPipeline resolving [] chain)) (SetStatus ''B'' Running) \<le> 1 \<and>
   statuses ''B'' (trace (executeBuildPipeline resolving [] chain)) = [Running, Completed] \<and>
   (\<exists>u. result (executeBuildPipeline resolving [] chain) = Some (Succeeded ''b1'' u))"
proof -
  let ?fin = "executeBuildPipeline resolving [] chain"
  let ?pre = "[Progress Initializing PActive [], Enqueue ''A'',
      Progress (StartingBatch 1) PActive [], SetStatus ''A'' Running,
      Progress (Starting ''A'') PActive ''Task: generate-page'',
      QueueAdd ''generate-page'' ''A'' [], Mkdir ''A'' ''A'',
      WriteFile ''A'' ''A'' ''code'', Upload ''A'' ''A'' ''code'',
      SetStatus ''A'' Completed, Progress (CompletedStep ''A'') PCompleted [],
      CountCompleted, Unblock ''A'', Enqueue ''B'',
      Progress (StartingBatch 1) PActive []]"
  let ?post = "[Progress (Starting ''B'') PActive ''Task: generate-page'',
      QueueAdd ''generate-page'' ''B'' [], Mkdir ''B'' ''B'',
      WriteFile ''B'' ''B'' ''code'', Upload ''B'' ''B'' ''code'',
      SetStatus ''B'' Completed, Progress (CompletedStep ''B'') PCompleted [],
      CountCompleted, Unblock ''B'', Progress Deployed PCompleted [],
      Settle (Succeeded ''b1'' None)]"
  have h1: "acknowledging resolving" by (simp add: acknowledging_def resolving_def)
  have h2: "acyclic (set (edges (workGraph chain)))" by code_simp
  have h3: "trace ?fin = ?pre @ SetStatus ''B'' Running # ?post" by code_simp
  have h4: "\<forall>i. SetStatus i Failed \<notin> set (trace ?fin)" unfolding h3 by simp
  have h5: "''B'' \<in> set (keys (workGraph chain))" by code_simp
  have h6: "jobBuildId chain = ''b1''" by (simp add: chain_def)
  note t = nodes_run_once_after_their_dependencies[of resolving "[]" chain "''B''" ?pre ?post]
  from t h3 have c1: "deps_done (workGraph chain) ?pre ''B''" by blast
  from t have c2: "count_list (trace ?fin) (SetStatus ''B'' Running) \<le> 1" by blast
  from t h1 h2 h4 h5 have c3: "statuses ''B'' (trace ?fin) = [Running, Completed]" by blast
  from t h1 h2 h4 h6 have c4: "\<exists>u. result ?fin = Some (Succeeded ''b1'' u)" by metis
  show ?thesis using h1 h2 h3 c1 c2 c3 c4 by blast
qed

subsection \<open>C2: a graph with a cycle\<close>

text \<open>C2 as stated fails: nothing validates the graph. In a graph where \<open>B\<close> and \<open>C\<close>
  depend on each other and \<open>A\<close> depends on nothing, \<open>A\<close> is dispatched and completed, and
  only when the loop has ended is an error thrown: the count-mismatch error, which is not a
  cycle error.\<close>

theorem with_cycle_runs_first_wave:
  "(''B'', ''B'') \<in> (set (edges (workGraph with_cycle)))\<^sup>+ \<and>
   trace (executeBuildPipeline resolving [] with_cycle) =
     [Progress Initializing PActive [], Enqueue ''A'',
      Progress (StartingBatch 1) PActive [], SetStatus ''A'' Running,
      Progress (Starting ''A'') PActive ''Task: lint'',
      SetStatus ''A'' Completed, Progress (CompletedStep ''A'') PCompleted [],
      CountCompleted, Unblock ''A'', Settle (FailedWith Incomplete)] \<and>
   cause_message Incomplete = ''Build failed: Not all tasks in the work graph were completed.''"
  by code_simp

text \<open>C2 (amended): a graph with a dependency cycle is not rejected by a validation, and
  there is no cycle error: the pipeline runs it like any other graph. No node on a cycle is
  ever dispatched, nothing is done for it, and the pipeline neither hangs nor succeeds: it
  settles with an error, which is the count-mismatch error thrown after the loop when every
  progress publish is acknowledged and no node fails.\<close>

theorem nodes_on_a_cycle_are_never_dispatched:
  "(x, x) \<in> (set (edges (workGraph j)))\<^sup>+ \<Longrightarrow>
   SetStatus x Running \<notin> set (trace (executeBuildPipeline ev sched j)) \<and>
   own x (trace (executeBuildPipeline ev sched j)) = [] \<and>
   list_all (\<lambda>p. \<not> in_flight (snd p)) (promises (executeBuildPipeline ev sched j)) \<and>
   (\<exists>c. result (executeBuildPipeline ev sched j) = Some (FailedWith c)) \<and>
   (acknowledging ev \<longrightarrow>
    (\<forall>i. SetStatus i Failed \<notin> set (trace (executeBuildPipeline ev sched j))) \<longrightarrow>
      result (executeBuildPipeline ev sched j) = Some (FailedWith Incomplete))"
proof -
  assume cyc: "(x, x) \<in> (set (edges (workGraph j)))\<^sup>+"
  let ?fin = "executeBuildPipeline ev sched j"
  have fin: "list_all (\<lambda>p. \<not> in_flight (snd p)) (promises ?fin)"
    using pipeline_final[of ev sched j] by (simp add: list_all_iff)
  consider (a) e where "acked ev (jobBuildId j) 0 Initializing = Some e"
      "?fin = aborted (jobBuildId j) e"
    | (b) "reach ev j ?fin"
    using pipeline_cases[of ev j sched] by blast
  then show ?thesis
  proof cases
    case a
    have "SetStatus x Running \<notin> set (trace ?fin)"
      by (simp add: a(2) aborted_fields emitted_def)
    moreover have "\<not> acknowledging ev" using a(1) by (auto simp: acked_acknowledging)
    ultimately show ?thesis using fin by (simp add: a(2) aborted_fields(3))
  next
    case b
    have 1: "SetStatus x Running \<notin> set (trace ?fin)"
      by (rule cycle_not_dispatched[OF reach_sequenced[OF b] cyc])
    have 2: "own x (trace ?fin) = []" by (rule undispatched_untouched[OF b 1])
    obtain r where r: "result ?fin = Some r" using pipeline_settles[of ev sched j] by auto
    have "r \<noteq> Succeeded b' u" for b' u using cyclic_no_success[OF b cyc] r by auto
    then obtain c where c: "r = FailedWith c" by (cases r) auto
    have 3: "c = Incomplete"
      if "acknowledging ev" "\<forall>i. SetStatus i Failed \<notin> set (trace ?fin)"
      using quiet_failure[OF b that] r c by simp
    show ?thesis using 1 2 fin r c 3 by simp
  qed
qed

theorem nodes_on_a_cycle_are_never_dispatched_witness:
  "(''B'', ''B'') \<in> (set (edges (workGraph with_cycle)))\<^sup>+ \<and>
   acknowledging resolving \<and>
   statuses ''A'' (trace (executeBuildPipeline resolving [] with_cycle)) = [Running, Completed] \<and>
   SetStatus ''B'' Running \<notin> set (trace (executeBuildPipeline resolving [] with_cycle)) \<and>
   own ''B'' (trace (executeBuildPipeline resolving [] with_cycle)) = [] \<and>
   result (executeBuildPipeline resolving [] with_cycle) = Some (FailedWith Incomplete)"
proof -
  let ?fin = "executeBuildPipeline resolving [] with_cycle"
  have h1: "(''B'', ''B'') \<in> (set (edges (workGraph with_cycle)))\<^sup>+" by code_simp
  have h2: "acknowledging resolving" by (simp add: acknowledging_def resolving_def)
  have tr: "trace ?fin =
     [Progress Initializing PActive [], Enqueue ''A'',
      Progress (StartingBatch 1) PActive [], SetStatus ''A'' Running,
      Progress (Starting ''A'') PActive ''Task: lint'',
      SetStatus ''A'' Completed, Progress (CompletedStep ''A'') PCompleted [],
      CountCompleted, Unblock ''A'', Settle (FailedWith Incomplete)]"
    by code_simp
  have h3: "\<forall>i. SetStatus i Failed \<notin> set (trace ?fin)" unfolding tr by simp
  have a: "statuses ''A'' (trace ?fin) = [Running, Completed]" unfolding tr by simp
  note t = nodes_on_a_cycle_are_never_dispatched[of "''B''" with_cycle resolving "[]"]
  from t h1 have c: "SetStatus ''B'' Running \<notin> set (trace ?fin)" "own ''B'' (trace ?fin) = []"
    by blast+
  from t h1 h2 h3 have d: "result ?fin = Some (FailedWith Incomplete)" by blast
  show ?thesis using h1 h2 a c d by blast
qed

subsection \<open>C3: a failing node fails the build\<close>




subsection \<open>C9: the loop terminates\<close>

text \<open>C9 as stated fails in its last part: a cyclic graph need not end in the count-mismatch
  error. Where \<open>B\<close> depends on itself and the job of \<open>A\<close> cannot be submitted, the rejection
  of \<open>A\<close> leaves the loop, and the pipeline ends with the error of \<open>A\<close>; the count check
  after the loop is never reached.\<close>

theorem loop_beside_ends_with_task_error:
  "(''B'', ''B'') \<in> (set (edges (workGraph loop_beside)))\<^sup>+ \<and>
   result (executeBuildPipeline (add_fails_for ''A'') [] loop_beside)
     = Some (FailedWith (TaskFailed ''A'' ''generate-page'' ''boom''))"
  by code_simp

text \<open>C9 (amended): the run of the pipeline terminates for every input graph, cyclic or
  not (\<open>exec\<close> is a total function), with the pipeline settled and no promise pending. Each
  node id is enqueued at most once and dispatched at most once. A graph with a cycle ends
  neither in success nor in an unbounded wait but in a thrown error: the count-mismatch
  error thrown after the loop, unless a promise of a wave or a progress publish was rejected
  before, which then is the error; it is the count-mismatch error whenever the progress
  publishes are acknowledged and no node fails.\<close>

theorem every_node_enqueued_and_dispatched_at_most_once:
  "count_list (trace (executeBuildPipeline ev sched j)) (Enqueue x) \<le> 1 \<and>
   count_list (trace (executeBuildPipeline ev sched j)) (SetStatus x Running) \<le> 1 \<and>
   list_all (\<lambda>p. \<not> in_flight (snd p)) (promises (executeBuildPipeline ev sched j)) \<and>
   result (executeBuildPipeline ev sched j) \<noteq> None \<and>
   ((y, y) \<in> (set (edges (workGraph j)))\<^sup>+ \<longrightarrow>
      (\<exists>c. result (executeBuildPipeline ev sched j) = Some (FailedWith c) \<and>
           (c = Incomplete
            \<or> (\<exists>i. (i, Rejected c) \<in> set (promises (executeBuildPipeline ev sched j)))
            \<or> (\<exists>e w st. c = Thrown e \<and> acked ev (jobBuildId j) w st = Some e))) \<and>
      (acknowledging ev \<longrightarrow>
       (\<forall>i. SetStatus i Failed \<notin> set (trace (executeBuildPipeline ev sched j))) \<longrightarrow>
         result (executeBuildPipeline ev sched j) = Some (FailedWith Incomplete)))"
proof -
  let ?fin = "executeBuildPipeline ev sched j"
  have fin: "list_all (\<lambda>p. \<not> in_flight (snd p)) (promises ?fin)"
    using pipeline_final[of ev sched j] by (simp add: list_all_iff)
  have res: "result ?fin \<noteq> None" by (rule pipeline_settles)
  consider (a) e where "acked ev (jobBuildId j) 0 Initializing = Some e"
      "?fin = aborted (jobBuildId j) e"
    | (b) "reach ev j ?fin"
    using pipeline_cases[of ev j sched] by blast
  then show ?thesis
  proof cases
    case a
    have "e' \<notin> set (trace ?fin)" if "\<And>st ps d. e' \<noteq> Progress st ps d" "\<And>r. e' \<noteq> Settle r" for e'
      using that by (auto simp: a(2) aborted_fields emitted_def)
    then have 1: "count_list (trace ?fin) (Enqueue x) = 0"
      "count_list (trace ?fin) (SetStatus x Running) = 0"
      by (simp_all add: count_list_0)
    have 2: "\<not> acknowledging ev" using a(1) by (auto simp: acked_acknowledging)
    have 3: "\<exists>c. result ?fin = Some (FailedWith c) \<and>
           (c = Incomplete \<or> (\<exists>i. (i, Rejected c) \<in> set (promises ?fin))
            \<or> (\<exists>e w st. c = Thrown e \<and> acked ev (jobBuildId j) w st = Some e))"
      using a(1) by (auto simp: a(2) aborted_fields(3))
    show ?thesis using 1 2 3 fin res by simp
  next
    case b
    have 1: "count_list (trace ?fin) (Enqueue x) \<le> 1"
      "count_list (trace ?fin) (SetStatus x Running) \<le> 1"
      using reach_once[OF b] by (simp_all add: once_def)
    have 2: "(\<exists>c. result ?fin = Some (FailedWith c) \<and>
           (c = Incomplete \<or> (\<exists>i. (i, Rejected c) \<in> set (promises ?fin))
            \<or> (\<exists>e w st. c = Thrown e \<and> acked ev (jobBuildId j) w st = Some e))) \<and>
      (acknowledging ev \<longrightarrow> (\<forall>i. SetStatus i Failed \<notin> set (trace ?fin)) \<longrightarrow>
         result ?fin = Some (FailedWith Incomplete))"
      if cyc: "(y, y) \<in> (set (edges (workGraph j)))\<^sup>+"
    proof -
      obtain r where r: "result ?fin = Some r" using res by auto
      have "r \<noteq> Succeeded b' u" for b' u using cyclic_no_success[OF b cyc] r by auto
      then obtain c where c: "r = FailedWith c" by (cases r) auto
      have bid: "buildId ?fin = jobBuildId j" using reach_proper[OF b] by (simp add: proper_def)
      have d: "c = Incomplete \<or> (\<exists>i. (i, Rejected c) \<in> set (promises ?fin))
            \<or> (\<exists>e w st. c = Thrown e \<and> acked ev (jobBuildId j) w st = Some e)"
        using reach_caused[OF b] r c bid by (auto simp: caused_def own_failure_def)
      have "c = Incomplete"
        if "acknowledging ev" "\<forall>i. SetStatus i Failed \<notin> set (trace ?fin)"
        using quiet_failure[OF b that] r c by simp
      then show ?thesis using r c d by simp
    qed
    show ?thesis using 1 2 fin res by blast
  qed
qed

theorem every_node_enqueued_and_dispatched_at_most_once_witness:
  "(''B'', ''B'') \<in> (set (edges (workGraph loop_beside)))\<^sup>+ \<and>
   acknowledging resolving \<and>
   statuses ''A'' (trace (executeBuildPipeline resolving [] loop_beside)) = [Running, Completed] \<and>
   statuses ''B'' (trace (executeBuildPipeline resolving [] loop_beside)) = [] \<and>
   count_list (trace (executeBuildPipeline resolving [] loop_beside)) (Enqueue ''A'') \<le> 1 \<and>
   count_list (trace (executeBuildPipeline resolving [] loop_beside)) (SetStatus ''A'' Running) \<le> 1 \<and>
   list_all (\<lambda>p. \<not> in_flight (snd p)) (promises (executeBuildPipeline resolving [] loop_beside)) \<and>
   result (executeBuildPipeline resolving [] loop_beside) = Some (FailedWith Incomplete)"
proof -
  let ?fin = "executeBuildPipeline resolving [] loop_beside"
  have h1: "(''B'', ''B'') \<in> (set (edges (workGraph loop_beside)))\<^sup>+" by code_simp
  have h2: "acknowledging resolving" by (simp add: acknowledging_def resolving_def)
  have tr: "trace ?fin =
     [Progress Initializing PActive [], Enqueue ''A'',
      Progress (StartingBatch 1) PActive [], SetStatus ''A'' Running,
      Progress (Starting ''A'') PActive ''Task: generate-page'',
      QueueAdd ''generate-page'' ''A'' [], Mkdir ''A'' ''A'',
      WriteFile ''A'' ''A'' ''code'', Upload ''A'' ''A'' ''code'',
      SetStatus ''A'' Completed, Progress (CompletedStep ''A'') PCompleted [],
      CountCompleted, Unblock ''A'', Settle (FailedWith Incomplete)]"
    by code_simp
  have h3: "\<forall>i. SetStatus i Failed \<notin> set (trace ?fin)" unfolding tr by simp
  have s: "statuses ''A'' (trace ?fin) = [Running, Completed]" "statuses ''B'' (trace ?fin) = []"
    unfolding tr by simp_all
  note t = every_node_enqueued_and_dispatched_at_most_once[of resolving "[]" loop_beside "''A''" "''B''"]
  from t have c: "count_list (trace ?fin) (Enqueue ''A'') \<le> 1"
    "count_list (trace ?fin) (SetStatus ''A'' Running) \<le> 1"
    "list_all (\<lambda>p. \<not> in_flight (snd p)) (promises ?fin)"
    by blast+
  from t h1 h2 h3 have d: "result ?fin = Some (FailedWith Incomplete)" by blast
  show ?thesis using h1 h2 s c d by blast
qed

end
